theory Spec2Isabelle
  imports Main "HOL-Library.Word"
begin

section \<open>The C objects the shim works on\<close>

text \<open>
  The header \<^verbatim>\<open>windows_portability.h\<close> defines one function, \<^verbatim>\<open>strerror_r\<close>, over
  three library calls (\<^verbatim>\<open>strerror\<close>, \<^verbatim>\<open>strncpy\<close>, \<^verbatim>\<open>strerror_s\<close>), and a handful of
  preprocessor definitions. The function is embedded over an explicit store of C
  objects; the preprocessor part is embedded as the macro table the header builds and
  the replacement of macro invocations against that table.

  A \<^verbatim>\<open>char\<close> is a byte, an \<^verbatim>\<open>int\<close> has 32 bits, and \<^verbatim>\<open>size_t\<close> is an unsigned word
  whose width \<open>'w\<close> is left open (32 on a 32-bit target, 64 on a 64-bit one), so
  that \<^verbatim>\<open>buflen - 1\<close> wraps the way the machine does.
\<close>

type_synonym c_char = "8 word"
type_synonym c_int = "32 word"

text \<open>
  Memory is a list of objects (blocks), each an array of bytes; a pointer is null or
  names a block (by its position in the list) and an offset into it. An access outside
  the object the pointer belongs to is undefined behaviour in C and a \<open>fault\<close> here.
\<close>

datatype ptr = Null | Ptr nat nat

type_synonym memory = "c_char list list"

datatype fault = NullPointer | InvalidBlock | OutOfBounds | Overlap | Aborted

definition load :: "memory \<Rightarrow> ptr \<Rightarrow> nat \<Rightarrow> fault + c_char" where
  "load m p i =
     (case p of
        Null \<Rightarrow> Inl NullPointer
      | Ptr b off \<Rightarrow>
          if b < length m then
            if off + i < length (m ! b) then Inr (m ! b ! (off + i)) else Inl OutOfBounds
          else Inl InvalidBlock)"

definition store :: "memory \<Rightarrow> ptr \<Rightarrow> nat \<Rightarrow> c_char \<Rightarrow> fault + memory" where
  "store m p i c =
     (case p of
        Null \<Rightarrow> Inl NullPointer
      | Ptr b off \<Rightarrow>
          if b < length m then
            if off + i < length (m ! b) then Inr (m[b := (m ! b)[off + i := c]])
            else Inl OutOfBounds
          else Inl InvalidBlock)"

text \<open>
  The bytes an \<open>n\<close>-byte buffer at \<open>p\<close> holds, and the C string that starts at \<open>p\<close>:
  the bytes before the first null byte of the object, when there is one.
\<close>

definition buffer_bytes :: "memory \<Rightarrow> ptr \<Rightarrow> nat \<Rightarrow> c_char list option" where
  "buffer_bytes m p n =
     (case p of
        Null \<Rightarrow> None
      | Ptr b off \<Rightarrow>
          if b < length m \<and> off + n \<le> length (m ! b) then Some (take n (drop off (m ! b)))
          else None)"

definition cstring :: "memory \<Rightarrow> ptr \<Rightarrow> c_char list option" where
  "cstring m p =
     (case p of
        Null \<Rightarrow> None
      | Ptr b off \<Rightarrow>
          if b < length m \<and> 0 \<in> set (drop off (m ! b))
          then Some (takeWhile (\<lambda>c. c \<noteq> 0) (drop off (m ! b)))
          else None)"

section \<open>The library calls\<close>

text \<open>
  \<^verbatim>\<open>strncpy(dst, src, n)\<close> as the C standard describes it: at most \<open>n\<close> characters are
  copied, none after a null character, and when the source string is shorter than
  \<open>n\<close> the rest of the \<open>n\<close> bytes is filled with null characters. Copying between
  overlapping objects is undefined: reading a source byte that lies among the \<open>n\<close>
  destination bytes is the fault \<open>Overlap\<close>.
\<close>

definition in_destination :: "ptr \<Rightarrow> nat \<Rightarrow> ptr \<Rightarrow> nat \<Rightarrow> bool" where
  "in_destination dst n src i =
     (case (dst, src) of
        (Ptr db doff, Ptr sb soff) \<Rightarrow> db = sb \<and> doff \<le> soff + i \<and> soff + i < doff + n
      | _ \<Rightarrow> False)"

fun zero_fill :: "memory \<Rightarrow> ptr \<Rightarrow> nat \<Rightarrow> nat \<Rightarrow> fault + memory" where
  "zero_fill m dst i 0 = Inr m"
| "zero_fill m dst i (Suc k) =
     (case store m dst i 0 of
        Inl e \<Rightarrow> Inl e
      | Inr m' \<Rightarrow> zero_fill m' dst (Suc i) k)"

fun strncpy_from :: "memory \<Rightarrow> ptr \<Rightarrow> ptr \<Rightarrow> nat \<Rightarrow> nat \<Rightarrow> nat \<Rightarrow> fault + memory" where
  "strncpy_from m dst src n i 0 = Inr m"
| "strncpy_from m dst src n i (Suc k) =
     (if in_destination dst n src i then Inl Overlap
      else
        (case load m src i of
           Inl e \<Rightarrow> Inl e
         | Inr c \<Rightarrow>
             if c = 0 then zero_fill m dst i (Suc k)
             else
               (case store m dst i c of
                  Inl e \<Rightarrow> Inl e
                | Inr m' \<Rightarrow> strncpy_from m' dst src n (Suc i) k)))"

definition strncpy :: "memory \<Rightarrow> ptr \<Rightarrow> ptr \<Rightarrow> nat \<Rightarrow> fault + memory" where
  "strncpy m dst src n = strncpy_from m dst src n 0 n"

text \<open>
  The two calls the platform provides. \<^verbatim>\<open>strerror(errnum)\<close> returns a pointer to the
  message, a C string in storage of the library's own; the store the shim goes on with
  is the one the call leaves.
  \<^verbatim>\<open>strerror_s(buf, buflen, errnum)\<close> is the C runtime's bounds-checked variant; it
  receives the value of its \<^verbatim>\<open>size_t\<close> argument, returns an \<^verbatim>\<open>errno_t\<close>, and may end
  the program through the runtime's invalid-parameter handler (\<open>Aborted\<close>). Neither is
  code of this repository: both are parameters of the model.
\<close>

record platform =
  strerror :: "c_int \<Rightarrow> ptr"
  strerror_s :: "ptr \<Rightarrow> nat \<Rightarrow> c_int \<Rightarrow> memory \<Rightarrow> fault + (c_int \<times> memory)"

section \<open>The toolchain and the shim\<close>

text \<open>
  The predefined macros the two headers test: \<^verbatim>\<open>_WIN32\<close>, \<^verbatim>\<open>_MSC_VER\<close>, \<^verbatim>\<open>__GNUC__\<close>
  and \<^verbatim>\<open>_OPENMP\<close>.
\<close>

record toolchain =
  win32 :: bool
  msc_ver :: bool
  gnuc :: bool
  openmp :: bool

text \<open>
  \<^verbatim>\<open>strerror_r\<close> of \<^verbatim>\<open>windows_portability.h\<close>, one branch per \<^verbatim>\<open>#ifdef _MSC_VER\<close> arm.
  The result of \<^verbatim>\<open>strerror_s\<close> is dropped, as in the source.
\<close>

definition strerror_r ::
  "toolchain \<Rightarrow> platform \<Rightarrow> c_int \<Rightarrow> ptr \<Rightarrow> 'w::len word \<Rightarrow> memory \<Rightarrow> fault + (ptr \<times> memory)"
where
  "strerror_r tc P errnum buf buflen m =
     (if msc_ver tc then
        (case strerror_s P buf (unat buflen) errnum m of
           Inl e \<Rightarrow> Inl e
         | Inr (rc, m1) \<Rightarrow> Inr (buf, m1))
      else
        (let result = strerror P errnum in
           (case strncpy m buf result (unat buflen) of
              Inl e \<Rightarrow> Inl e
            | Inr m2 \<Rightarrow>
                (case store m2 buf (unat (buflen - 1)) 0 of
                   Inl e \<Rightarrow> Inl e
                 | Inr m3 \<Rightarrow> Inr (buf, m3)))))"

section \<open>Preconditions and platform contracts\<close>

text \<open>
  A buffer of \<open>n\<close> bytes at \<open>p\<close>: \<open>p\<close> points into a live object that has at least
  \<open>n\<close> bytes from \<open>p\<close> on.
\<close>

definition valid_buffer :: "memory \<Rightarrow> ptr \<Rightarrow> nat \<Rightarrow> bool" where
  "valid_buffer m p n =
     (case p of Null \<Rightarrow> False | Ptr b off \<Rightarrow> b < length m \<and> off + n \<le> length (m ! b))"

text \<open>The byte \<open>i\<close> places after \<open>p\<close> lies in the object \<open>p\<close> points into.\<close>

definition in_object :: "memory \<Rightarrow> ptr \<Rightarrow> nat \<Rightarrow> bool" where
  "in_object m p i =
     (case p of Null \<Rightarrow> False | Ptr b off \<Rightarrow> b < length m \<and> off + i < length (m ! b))"

text \<open>Two pointers into different objects.\<close>

definition separate :: "ptr \<Rightarrow> ptr \<Rightarrow> bool" where
  "separate p q = (case (p, q) of (Ptr a _, Ptr b _) \<Rightarrow> a \<noteq> b | _ \<Rightarrow> False)"

text \<open>
  \<open>m'\<close> differs from \<open>m\<close> at most in the \<open>n\<close> bytes of the buffer at \<open>p\<close>: every
  other object is the same, and the buffer's object has the same size and the same
  bytes before and after the buffer.
\<close>

definition unchanged_outside :: "memory \<Rightarrow> memory \<Rightarrow> ptr \<Rightarrow> nat \<Rightarrow> bool" where
  "unchanged_outside m m' p n =
     (case p of
        Null \<Rightarrow> m' = m
      | Ptr b off \<Rightarrow>
          m' = m[b := m' ! b] \<and> length (m' ! b) = length (m ! b) \<and>
          take off (m' ! b) = take off (m ! b) \<and>
          drop (off + n) (m' ! b) = drop (off + n) (m ! b))"

text \<open>
  The platform's error text for \<open>errnum\<close>: the C string \<^verbatim>\<open>strerror(errnum)\<close> points to.
\<close>

definition platform_text :: "platform \<Rightarrow> c_int \<Rightarrow> memory \<Rightarrow> c_char list option" where
  "platform_text P errnum m = cstring m (strerror P errnum)"

text \<open>
  What the C standard promises of \<^verbatim>\<open>strerror\<close>: the result points to a string, in an
  array the program must not modify, hence not in the caller's buffer.
\<close>

definition strerror_conforms :: "platform \<Rightarrow> c_int \<Rightarrow> ptr \<Rightarrow> memory \<Rightarrow> bool" where
  "strerror_conforms P errnum buf m =
     (platform_text P errnum m \<noteq> None \<and> separate (strerror P errnum) buf)"

text \<open>
  What the C runtime documents of \<^verbatim>\<open>strerror_s\<close> on a buffer of \<open>n \<ge> 1\<close> bytes: it
  returns, writes within the buffer only, and leaves there the error text, truncated
  to \<open>n - 1\<close> characters when it is longer, and null-terminated.
\<close>

definition strerror_s_conforms :: "platform \<Rightarrow> c_int \<Rightarrow> ptr \<Rightarrow> nat \<Rightarrow> memory \<Rightarrow> bool" where
  "strerror_s_conforms P errnum buf n m =
     (case strerror_s P buf n errnum m of
        Inl e \<Rightarrow> False
      | Inr (rc, m') \<Rightarrow>
          unchanged_outside m m' buf n \<and>
          (case platform_text P errnum m of
             None \<Rightarrow> False
           | Some text \<Rightarrow> cstring m' buf = Some (take (n - 1) text)))"

text \<open>The contract of the one platform call the compiled branch makes.\<close>

definition platform_conforms ::
  "toolchain \<Rightarrow> platform \<Rightarrow> c_int \<Rightarrow> ptr \<Rightarrow> nat \<Rightarrow> memory \<Rightarrow> bool"
where
  "platform_conforms tc P errnum buf n m =
     (if msc_ver tc then strerror_s_conforms P errnum buf n m
      else strerror_conforms P errnum buf m)"

text \<open>
  No object is larger than \<^verbatim>\<open>SIZE_MAX\<close> bytes, the largest value of the \<open>w\<close>-bit
  \<^verbatim>\<open>size_t\<close>.
\<close>

definition sizes_fit :: "nat \<Rightarrow> memory \<Rightarrow> bool" where
  "sizes_fit w m = list_all (\<lambda>bytes. length bytes < 2 ^ w) m"

subsection \<open>Lists written into a buffer\<close>

text \<open>\<open>overwrite xs pos ys\<close> is \<open>xs\<close> with \<open>ys\<close> written over it from position \<open>pos\<close>.\<close>

definition overwrite :: "'a list \<Rightarrow> nat \<Rightarrow> 'a list \<Rightarrow> 'a list" where
  "overwrite xs pos ys = take pos xs @ ys @ drop (pos + length ys) xs"

text \<open>
  The \<open>n\<close> bytes the copying branch leaves: the first \<open>n - 1\<close> characters of the text,
  then null bytes up to \<open>n\<close>.
\<close>

definition bounded_image :: "c_char list \<Rightarrow> nat \<Rightarrow> c_char list" where
  "bounded_image text n = take (n - 1) text @ replicate (n - length (take (n - 1) text)) 0"


section \<open>The two references of the specification\<close>

text \<open>
  The specification describes the shim by two references: under one compiler family it
  delegates to \<^verbatim>\<open>strerror_s\<close>, under the others it makes a buffer-bounded copy of
  \<^verbatim>\<open>strerror\<close>. Both are written here from those words, to be compared with
  \<open>strerror_r\<close> above.

  Delegation: the effect is that of \<^verbatim>\<open>strerror_s(buf, buflen, errnum)\<close>, and the buffer
  is handed back.
\<close>

definition delegate_to_strerror_s ::
  "platform \<Rightarrow> c_int \<Rightarrow> ptr \<Rightarrow> nat \<Rightarrow> memory \<Rightarrow> fault + (ptr \<times> memory)"
where
  "delegate_to_strerror_s P errnum buf n m =
     (case strerror_s P buf n errnum m of
        Inl e \<Rightarrow> Inl e
      | Inr (rc, m') \<Rightarrow> Inr (buf, m'))"

text \<open>
  The buffer-bounded copy: of the \<open>n\<close> bytes of the buffer, as many as the error text
  has characters receive the text, cut where the buffer ends, and the bytes the text
  does not reach are null, as a copy bounded by the buffer length leaves them in C; and
  the result is always null-terminated, so the last of the \<open>n\<close> bytes is null. Nothing
  is written when \<open>n = 0\<close>. The words give it no meaning without a buffer or without
  a text (\<open>None\<close>).
\<close>

definition bounded_copy_of_strerror ::
  "platform \<Rightarrow> c_int \<Rightarrow> ptr \<Rightarrow> nat \<Rightarrow> memory \<Rightarrow> (ptr \<times> memory) option"
where
  "bounded_copy_of_strerror P errnum buf n m =
     (case (buf, platform_text P errnum m) of
        (Ptr b off, Some msg) \<Rightarrow>
          if valid_buffer m buf n
          then Some (buf,
                 m[b := overwrite (m ! b) off ((take n (msg @ replicate n 0))[n - 1 := 0])])
          else None
      | _ \<Rightarrow> None)"

section \<open>The preprocessor\<close>

text \<open>
  The rest of the two headers is preprocessor directives. A translation unit is a list of
  tokens; a \<^verbatim>\<open>#define\<close> adds an object-like or a function-like macro to the table.
\<close>

datatype token = Ident string | LParen | RParen | Comma | Other string

datatype macro = ObjectLike "token list" | FunctionLike "string list" "token list"

type_synonym macro_table = "(string \<times> macro) list"

datatype pp_error = UnterminatedArguments | WrongArgumentCount

text \<open>
  The arguments of a function-like macro invocation, read from the token after the
  opening parenthesis: they end at the matching closing parenthesis and are separated
  by the commas outside any inner parentheses. \<open>d\<close> is the nesting depth, \<open>cur\<close> the
  argument being read (reversed) and \<open>acc\<close> the arguments read (reversed).
\<close>

fun collect ::
  "nat \<Rightarrow> token list \<Rightarrow> token list \<Rightarrow> token list list \<Rightarrow> (token list list \<times> token list) option"
where
  "collect d [] cur acc = None"
| "collect d (LParen # ts) cur acc = collect (Suc d) ts (LParen # cur) acc"
| "collect d (RParen # ts) cur acc =
     (if d = 0 then Some (rev (rev cur # acc), ts) else collect (d - 1) ts (RParen # cur) acc)"
| "collect d (Comma # ts) cur acc =
     (if d = 0 then collect 0 ts [] (rev cur # acc) else collect d ts (Comma # cur) acc)"
| "collect d (t # ts) cur acc = collect d ts (t # cur) acc"

text \<open>The replacement list with each parameter replaced by its argument.\<close>

fun substitute :: "(string \<times> token list) list \<Rightarrow> token list \<Rightarrow> token list" where
  "substitute env [] = []"
| "substitute env (Ident x # ts) =
     (case map_of env x of Some a \<Rightarrow> a | None \<Rightarrow> [Ident x]) @ substitute env ts"
| "substitute env (t # ts) = t # substitute env ts"

text \<open>The arguments as replaced, or the first error among them.\<close>

fun replaced_arguments :: "(pp_error + token list) list \<Rightarrow> pp_error + token list list" where
  "replaced_arguments [] = Inr []"
| "replaced_arguments (r # rs) =
     (case r of
        Inl e \<Rightarrow> Inl e
      | Inr a \<Rightarrow>
          (case replaced_arguments rs of Inl e \<Rightarrow> Inl e | Inr as \<Rightarrow> Inr (a # as)))"

definition followed_by :: "token list \<Rightarrow> pp_error + token list \<Rightarrow> pp_error + token list" where
  "followed_by xs r = (case r of Inl e \<Rightarrow> Inl e | Inr ys \<Rightarrow> Inr (xs @ ys))"

lemma collect_length:
  "collect d ts cur acc = Some (args, rest) \<Longrightarrow>
   length rest < length ts \<and>
   (\<forall>a \<in> set args. a \<in> set acc \<or> length a \<le> length cur + length ts)"
proof (induction d ts cur acc rule: collect.induct)
  case (3 d ts cur acc)
  then show ?case by (fastforce split: if_splits)
next
  case (4 d ts cur acc)
  then show ?case by (fastforce split: if_splits)
qed fastforce+

lemma collect_args_shorter:
  assumes "collect 0 ts [] [] = Some (args, rest)"
  shows "length rest < length ts" and "a \<in> set args \<Longrightarrow> length a \<le> length ts"
  using collect_length [OF assms] by auto

text \<open>
  Macro replacement over a token list, left to right. An object-like macro name is
  replaced by its replacement list. A function-like macro name followed by \<open>(\<close> takes
  its arguments; an argument whose parameter occurs in the replacement list is
  macro-replaced on its own first, then the parameters are substituted. A function-like
  macro name not followed by \<open>(\<close> is left alone. The result of a replacement is not
  scanned again: no replacement list of these headers names a macro (lemma
  \<open>header_macros_need_no_rescan\<close> below), so a rescan would find nothing to replace.
\<close>

function (sequential) expand :: "macro_table \<Rightarrow> token list \<Rightarrow> pp_error + token list" where
  "expand tbl [] = Inr []"
| "expand tbl (Ident n # ts) =
     (case map_of tbl n of
        None \<Rightarrow> followed_by [Ident n] (expand tbl ts)
      | Some (ObjectLike body) \<Rightarrow> followed_by body (expand tbl ts)
      | Some (FunctionLike ps body) \<Rightarrow>
          (case ts of
             LParen # ts' \<Rightarrow>
               (case collect 0 ts' [] [] of
                  None \<Rightarrow> Inl UnterminatedArguments
                | Some (args, rest) \<Rightarrow>
                    if length args = length ps \<or> (ps = [] \<and> args = [[]]) then
                      (case replaced_arguments
                              (map (\<lambda>(p, a). if Ident p \<in> set body then expand tbl a else Inr [])
                                (zip ps args)) of
                         Inl e \<Rightarrow> Inl e
                       | Inr eargs \<Rightarrow>
                           followed_by (substitute (zip ps eargs) body) (expand tbl rest))
                    else Inl WrongArgumentCount)
           | _ \<Rightarrow> followed_by [Ident n] (expand tbl ts)))"
| "expand tbl (t # ts) = followed_by [t] (expand tbl ts)"
  by pat_completeness auto
termination
  apply (relation "measure (\<lambda>(tbl, ts). length ts)")
  apply simp_all
  subgoal for tbl n ts x2 x21 x22 x21a x22a x2a x y xa xb ya
    using collect_args_shorter(2) [of x22a x y ya] by (auto dest: set_zip_rightD)
  subgoal for tbl n ts x2 x21 x22 x21a x22a x2a x y b
    using collect_args_shorter(1) [of x22a x y] by auto
  done

text \<open>
  A token list that can stand as one macro argument: its parentheses are balanced and
  it has no comma outside them.
\<close>

fun closes :: "nat \<Rightarrow> token list \<Rightarrow> bool" where
  "closes d [] = (d = 0)"
| "closes d (LParen # ts) = closes (Suc d) ts"
| "closes d (RParen # ts) = (0 < d \<and> closes (d - 1) ts)"
| "closes d (Comma # ts) = (0 < d \<and> closes d ts)"
| "closes d (t # ts) = closes d ts"

definition argument :: "token list \<Rightarrow> bool" where
  "argument ts = closes 0 ts"

text \<open>
  A table needs no rescan when no replacement list names a macro of the table.
\<close>

definition mentions :: "macro_table \<Rightarrow> token list \<Rightarrow> bool" where
  "mentions tbl body = list_ex (\<lambda>t. case t of Ident x \<Rightarrow> map_of tbl x \<noteq> None | _ \<Rightarrow> False) body"

definition needs_no_rescan :: "macro_table \<Rightarrow> bool" where
  "needs_no_rescan tbl =
     list_all (\<lambda>(n, mac). case mac of
                 ObjectLike body \<Rightarrow> \<not> mentions tbl body
               | FunctionLike ps body \<Rightarrow> \<not> mentions tbl body) tbl"

section \<open>The two headers\<close>

text \<open>
  What a header contributes to a translation unit under a toolchain: the files it
  includes, the macros it defines, the functions it defines and the
  \<^verbatim>\<open>#pragma comment(lib, ...)\<close> directives it emits, each in source order.
\<close>

datatype pragma = CommentLib string

record header =
  included :: "string list"
  macros :: macro_table
  defined_functions :: "string list"
  pragmas :: "pragma list"

definition windows_portability_h :: "toolchain \<Rightarrow> header" where
  "windows_portability_h tc =
     (if win32 tc then
        \<lparr> included = [''io.h'', ''direct.h'', ''string'', ''errno.h''],
          macros =
            [(''WINDOWS_PORTABILITY_H'', ObjectLike []),
             (''getpid'', ObjectLike [Ident ''_getpid'']),
             (''mkdir'', FunctionLike [''name'', ''mode'']
                           [Ident ''_mkdir'', LParen, Ident ''name'', RParen]),
             (''access'', ObjectLike [Ident ''_access''])]
            @ (if \<not> gnuc tc then [(''__attribute__'', FunctionLike [''x''] [])] else []),
          defined_functions = [''strerror_r''],
          pragmas = [] \<rparr>
      else
        \<lparr> included = [''sys/stat.h'', ''sys/types.h'', ''unistd.h''],
          macros = [(''WINDOWS_PORTABILITY_H'', ObjectLike [])],
          defined_functions = [],
          pragmas = [] \<rparr>)"

definition common_windows_h :: "toolchain \<Rightarrow> header" where
  "common_windows_h tc =
     \<lparr> included = [''common.h''],
       macros = [(''COMMON_WINDOWS_H'', ObjectLike [])],
       defined_functions = [],
       pragmas =
         (if win32 tc then
            (if \<not> gnuc tc then
               [CommentLib ''brotlienc.lib'', CommentLib ''brotlidec.lib'']
               @ (if openmp tc then [CommentLib ''libiomp5md.lib''] else [])
             else [])
          else []) \<rparr>"

text \<open>
  A translation unit written with the names of the Windows C runtime: every \<^verbatim>\<open>getpid\<close>
  token replaced by \<^verbatim>\<open>_getpid\<close> and every \<^verbatim>\<open>access\<close> token by \<^verbatim>\<open>_access\<close>.
\<close>

definition crt_name :: "token \<Rightarrow> token" where
  "crt_name t =
     (if t = Ident ''getpid'' then Ident ''_getpid''
      else if t = Ident ''access'' then Ident ''_access''
      else t)"

section \<open>Worked inputs\<close>

text \<open>
  A store with the message \<^verbatim>\<open>"Bad file"\<close> in the library's object 0 and a six-byte
  object 1 of the caller's; a second store with other bytes in the caller's object; a
  store with the message \<^verbatim>\<open>"Other"\<close>; two stores with the message \<^verbatim>\<open>"Hi"\<close> that
  differ in the caller's object; a platform whose \<^verbatim>\<open>strerror\<close> points to that message and
  whose \<^verbatim>\<open>strerror_s\<close> ends the program on an invalid parameter and writes the
  truncated message otherwise; and four toolchains.
\<close>

definition example_memory :: memory where
  "example_memory =
     [[66, 97, 100, 32, 102, 105, 108, 101, 0], [170, 170, 170, 170, 170, 170]]"

definition example_memory_2 :: memory where
  "example_memory_2 =
     [[66, 97, 100, 32, 102, 105, 108, 101, 0], [1, 2, 3, 4, 5, 6, 7]]"

definition example_memory_other :: memory where
  "example_memory_other =
     [[79, 116, 104, 101, 114, 0], [170, 170, 170, 170, 170, 170]]"

definition short_memory_1 :: memory where
  "short_memory_1 = [[72, 105, 0], [1, 1, 1, 1, 1, 1]]"

definition short_memory_2 :: memory where
  "short_memory_2 = [[72, 105, 0], [2, 2, 2, 2, 2, 2]]"

definition example_strerror_s :: "ptr \<Rightarrow> nat \<Rightarrow> c_int \<Rightarrow> memory \<Rightarrow> fault + (c_int \<times> memory)" where
  "example_strerror_s buf n errnum m =
     (case buf of
        Null \<Rightarrow> Inl Aborted
      | Ptr b off \<Rightarrow>
          if n = 0 \<or> \<not> valid_buffer m buf n then Inl Aborted
          else
            (case cstring m (Ptr 0 0) of
               None \<Rightarrow> Inl Aborted
             | Some msg \<Rightarrow> Inr (0, m[b := overwrite (m ! b) off (take (n - 1) msg @ [0])])))"

definition example_platform :: platform where
  "example_platform = \<lparr> strerror = (\<lambda>errnum. Ptr 0 0), strerror_s = example_strerror_s \<rparr>"

definition mingw :: toolchain where
  "mingw = \<lparr> win32 = True, msc_ver = False, gnuc = True, openmp = False \<rparr>"

definition msvc :: toolchain where
  "msvc = \<lparr> win32 = True, msc_ver = True, gnuc = False, openmp = False \<rparr>"

definition msvc_openmp :: toolchain where
  "msvc_openmp = \<lparr> win32 = True, msc_ver = True, gnuc = False, openmp = True \<rparr>"

definition unix_cc :: toolchain where
  "unix_cc = \<lparr> win32 = False, msc_ver = False, gnuc = False, openmp = False \<rparr>"

section \<open>The copy loop and the copying branch\<close>

lemma overwrite_Nil [simp]: "overwrite xs pos [] = xs"
  by (simp add: overwrite_def)

lemma length_overwrite [simp]:
  "pos + length ys \<le> length xs \<Longrightarrow> length (overwrite xs pos ys) = length xs"
  by (simp add: overwrite_def)

lemma overwrite_Cons:
  "pos + Suc (length ys) \<le> length xs \<Longrightarrow>
   overwrite (xs[pos := c]) (Suc pos) ys = overwrite xs pos (c # ys)"
  by (simp add: overwrite_def take_Suc_conv_app_nth)

lemma zero_fill_ok:
  "db < length m \<Longrightarrow> doff + i + k \<le> length (m ! db) \<Longrightarrow>
   zero_fill m (Ptr db doff) i k = Inr (m[db := overwrite (m ! db) (doff + i) (replicate k 0)])"
proof (induction k arbitrary: m i)
  case 0
  then show ?case by simp
next
  case (Suc k)
  let ?m' = "m[db := (m ! db)[doff + i := 0]]"
  have st: "store m (Ptr db doff) i 0 = Inr ?m'"
    using Suc.prems by (simp add: store_def)
  have "zero_fill ?m' (Ptr db doff) (Suc i) k =
        Inr (?m'[db := overwrite (?m' ! db) (doff + Suc i) (replicate k 0)])"
    using Suc.prems by (intro Suc.IH) simp_all
  moreover have "overwrite (?m' ! db) (doff + Suc i) (replicate k 0) =
                 overwrite (m ! db) (doff + i) (replicate (Suc k) 0)"
    using Suc.prems overwrite_Cons [of "doff + i" "replicate k 0" "m ! db" 0] by simp
  ultimately show ?case using st by simp
qed


lemma take_append_replicate:
  "k \<le> j \<Longrightarrow> take k (xs @ replicate j a) = take k (xs @ replicate k a)"
  by (auto simp: min_def)

lemma cstring_nul_index:
  assumes "(0::c_char) \<in> set ys"
  shows "length (takeWhile (\<lambda>c. c \<noteq> 0) ys) < length ys"
    and "ys ! length (takeWhile (\<lambda>c. c \<noteq> 0) ys) = 0"
proof -
  show lt: "length (takeWhile (\<lambda>c. c \<noteq> 0) ys) < length ys"
    using assms by (induction ys) auto
  show "ys ! length (takeWhile (\<lambda>c. c \<noteq> 0) ys) = 0"
    using nth_length_takeWhile [OF lt] by simp
qed

lemma cstring_char_index:
  assumes "i < length (takeWhile (\<lambda>c. c \<noteq> 0) ys)"
  shows "ys ! i = takeWhile (\<lambda>c. c \<noteq> (0::c_char)) ys ! i" and "ys ! i \<noteq> 0"
proof -
  show eq: "ys ! i = takeWhile (\<lambda>c. c \<noteq> 0) ys ! i"
    using assms by (simp add: takeWhile_nth)
  have "takeWhile (\<lambda>c. c \<noteq> 0) ys ! i \<in> set (takeWhile (\<lambda>c. c \<noteq> 0) ys)"
    using assms by simp
  then show "ys ! i \<noteq> 0" using eq by (auto dest: set_takeWhileD)
qed

lemma strncpy_from_ok:
  assumes "sb \<noteq> db" "sb < length m" "db < length m"
    and "0 \<in> set (drop soff (m ! sb))"
    and "i \<le> length (takeWhile (\<lambda>c. c \<noteq> 0) (drop soff (m ! sb)))"
    and "doff + i + k \<le> length (m ! db)"
  shows "strncpy_from m (Ptr db doff) (Ptr sb soff) n i k =
         Inr (m[db := overwrite (m ! db) (doff + i)
                (take k (drop i (takeWhile (\<lambda>c. c \<noteq> 0) (drop soff (m ! sb))) @ replicate k 0))])"
  using assms
proof (induction k arbitrary: m i)
  case 0
  then show ?case by simp
next
  case (Suc k)
  let ?ys = "drop soff (m ! sb)"
  let ?text = "takeWhile (\<lambda>c. c \<noteq> 0) ?ys"
  have nodst: "\<not> in_destination (Ptr db doff) n (Ptr sb soff) i"
    using Suc.prems(1) by (simp add: in_destination_def)
  have len: "length ?text < length ?ys" and nul: "?ys ! length ?text = 0"
    using cstring_nul_index [OF Suc.prems(4)] by simp_all
  have inb: "soff + i < length (m ! sb)"
    using len Suc.prems(5) by simp
  have ld: "load m (Ptr sb soff) i = Inr (?ys ! i)"
    using inb Suc.prems(2) by (simp add: load_def)
  show ?case
  proof (cases "i = length ?text")
    case True
    then have c0: "?ys ! i = 0" using nul by simp
    have "zero_fill m (Ptr db doff) i (Suc k) =
          Inr (m[db := overwrite (m ! db) (doff + i) (replicate (Suc k) 0)])"
      using Suc.prems by (intro zero_fill_ok) simp_all
    then show ?thesis using nodst ld c0 True by simp
  next
    case False
    then have lt: "i < length ?text" using Suc.prems(5) by simp
    have ci: "?ys ! i = ?text ! i" and cnz: "?ys ! i \<noteq> 0"
      using cstring_char_index [OF lt] by simp_all
    let ?c = "?ys ! i"
    let ?m' = "m[db := (m ! db)[doff + i := ?c]]"
    have st: "store m (Ptr db doff) i ?c = Inr ?m'"
      using Suc.prems by (simp add: store_def)
    have sb': "?m' ! sb = m ! sb" using Suc.prems(1) by simp
    have "strncpy_from ?m' (Ptr db doff) (Ptr sb soff) n (Suc i) k =
          Inr (?m'[db := overwrite (?m' ! db) (doff + Suc i)
                (take k (drop (Suc i) (takeWhile (\<lambda>c. c \<noteq> 0) (drop soff (?m' ! sb))) @ replicate k 0))])"
      using Suc.prems lt by (intro Suc.IH) (simp_all add: sb')
    moreover have "overwrite (?m' ! db) (doff + Suc i) (take k (drop (Suc i) ?text @ replicate k 0)) =
          overwrite (m ! db) (doff + i) (take (Suc k) (drop i ?text @ replicate (Suc k) 0))"
    proof -
      have d: "drop i ?text = ?c # drop (Suc i) ?text"
        using lt ci by (simp add: Cons_nth_drop_Suc)
      have l: "length (take k (drop (Suc i) ?text @ replicate k 0)) = k" by simp
      have a: "overwrite ((m ! db)[doff + i := ?c]) (Suc (doff + i))
              (take k (drop (Suc i) ?text @ replicate k 0)) =
            overwrite (m ! db) (doff + i) (?c # take k (drop (Suc i) ?text @ replicate k 0))"
        using Suc.prems(6) l by (intro overwrite_Cons) simp
      have b: "take k (drop (Suc i) ?text @ replicate k 0) =
                     take k (drop (Suc i) ?text @ replicate (Suc k) 0)"
        by (rule take_append_replicate [symmetric]) simp
      have e: "take (Suc k) (drop i ?text @ replicate (Suc k) 0) =
               ?c # take k (drop (Suc i) ?text @ replicate (Suc k) 0)"
        by (simp only: d append_Cons take_Suc_Cons)
      have f: "?m' ! db = (m ! db)[doff + i := ?c]"
        using Suc.prems(3) by simp
      show ?thesis
        by (simp only: e f a b [symmetric] add_Suc_right)
    qed
    ultimately show ?thesis using nodst ld cnz st sb' by simp
  qed
qed


lemma overwrite_update:
  "j < length ys \<Longrightarrow> pos + length ys \<le> length xs \<Longrightarrow>
   (overwrite xs pos ys)[pos + j := c] = overwrite xs pos (ys[j := c])"
  by (simp add: overwrite_def list_update_append)

lemma take_pad_last:
  assumes "0 < n"
  shows "(take n (text @ replicate n (0::c_char)))[n - 1 := 0] =
         take (n - 1) text @ replicate (n - length (take (n - 1) text)) 0"
proof (rule nth_equalityI)
  show "length ((take n (text @ replicate n 0))[n - 1 := 0]) =
        length (take (n - 1) text @ replicate (n - length (take (n - 1) text)) 0)"
    using assms by auto
next
  fix i
  assume "i < length ((take n (text @ replicate n (0::c_char)))[n - 1 := 0])"
  then have i: "i < n" by simp
  show "(take n (text @ replicate n 0))[n - 1 := 0] ! i =
        (take (n - 1) text @ replicate (n - length (take (n - 1) text)) 0) ! i"
    using i by (cases "i = n - 1") (auto simp: nth_append)
qed

lemma strerror_r_copy_result:
  fixes buflen :: "'w::len word"
  assumes "\<not> msc_ver tc" and "buflen \<noteq> 0"
    and "db < length m" and "doff + unat buflen \<le> length (m ! db)"
    and "strerror P errnum = Ptr sb soff" and "sb \<noteq> db" and "sb < length m"
    and "0 \<in> set (drop soff (m ! sb))"
  shows "strerror_r tc P errnum (Ptr db doff) buflen m =
         Inr (Ptr db doff,
              m[db := overwrite (m ! db) doff
                 (bounded_image (takeWhile (\<lambda>c. c \<noteq> 0) (drop soff (m ! sb))) (unat buflen))])"
proof -
  let ?n = "unat buflen"
  let ?text = "takeWhile (\<lambda>c. c \<noteq> 0) (drop soff (m ! sb))"
  let ?ys = "take ?n (?text @ replicate ?n 0)"
  let ?m2 = "m[db := overwrite (m ! db) doff ?ys]"
  have n: "0 < ?n" using assms(2) by (simp add: unat_gt_0)
  have n1: "unat (buflen - 1) = ?n - 1" using assms(2) by (simp add: unat_minus_one)
  have ly: "length ?ys = ?n" by simp
  have cp: "strncpy m (Ptr db doff) (Ptr sb soff) ?n = Inr ?m2"
    using strncpy_from_ok [of sb db m soff 0 doff ?n ?n] assms by (simp add: strncpy_def)
  have blk: "?m2 ! db = overwrite (m ! db) doff ?ys" using assms(3) by simp
  have inb: "doff + (?n - 1) < length (?m2 ! db)"
  proof -
    have "length (overwrite (m ! db) doff ?ys) = length (m ! db)"
      by (rule length_overwrite) (simp only: ly assms(4))
    then have "length (?m2 ! db) = length (m ! db)" by (simp only: blk)
    then show ?thesis using n assms(4) by linarith
  qed
  have st: "store ?m2 (Ptr db doff) (?n - 1) 0 =
            Inr (?m2[db := (overwrite (m ! db) doff ?ys)[doff + (?n - 1) := 0]])"
    using inb assms(3) by (simp add: store_def blk)
  have up: "(overwrite (m ! db) doff ?ys)[doff + (?n - 1) := 0] =
            overwrite (m ! db) doff (bounded_image ?text ?n)"
    using overwrite_update [of "?n - 1" ?ys doff "m ! db" 0] n assms(4) ly
      take_pad_last [OF n, of ?text]
    by (simp add: bounded_image_def)
  show ?thesis
    by (simp only: strerror_r_def assms(1) if_False Let_def assms(5) cp n1 st sum.case up
        list_update_overwrite)
qed

lemma length_bounded_image: "0 < n \<Longrightarrow> length (bounded_image text n) = n"
  by (simp add: bounded_image_def)

lemma cstring_bounded_image:
  assumes "0 < n" and "0 \<notin> set text"
  shows "0 \<in> set (bounded_image text n @ rest)"
    and "takeWhile (\<lambda>c. c \<noteq> 0) (bounded_image text n @ rest) = take (n - 1) text"
proof -
  have pad: "0 < n - length (take (n - 1) text)" using assms(1) by simp
  then obtain k where k: "n - length (take (n - 1) text) = Suc k"
    using gr0_implies_Suc by blast
  have nz: "\<forall>c \<in> set (take (n - 1) text). c \<noteq> 0"
    using assms(2) by (metis in_set_takeD)
  have img: "bounded_image text n @ rest = take (n - 1) text @ 0 # (replicate k 0 @ rest)"
    unfolding bounded_image_def k by simp
  show "0 \<in> set (bounded_image text n @ rest)"
    unfolding img by simp
  show "takeWhile (\<lambda>c. c \<noteq> 0) (bounded_image text n @ rest) = take (n - 1) text"
    unfolding img using nz by (simp add: takeWhile_tail)
qed

lemma drop_overwrite:
  "pos \<le> length xs \<Longrightarrow> drop pos (overwrite xs pos ys) = ys @ drop (pos + length ys) xs"
  by (simp add: overwrite_def)

lemma take_overwrite: "pos \<le> length xs \<Longrightarrow> take pos (overwrite xs pos ys) = take pos xs"
  by (simp add: overwrite_def)

lemma drop_past_overwrite:
  "pos + length ys \<le> length xs \<Longrightarrow>
   drop (pos + length ys) (overwrite xs pos ys) = drop (pos + length ys) xs"
  by (simp add: overwrite_def)

lemma text_has_no_nul: "(0::c_char) \<notin> set (takeWhile (\<lambda>c. c \<noteq> 0) ys)"
  by (auto dest: set_takeWhileD)

lemma copy_image_properties:
  assumes "0 < n" and "db < length m" and "doff + n \<le> length (m ! db)"
    and "0 \<notin> set text"
  defines "m' \<equiv> m[db := overwrite (m ! db) doff (bounded_image text n)]"
  shows "cstring m' (Ptr db doff) = Some (take (n - 1) text)"
    and "buffer_bytes m' (Ptr db doff) n = Some (bounded_image text n)"
    and "unchanged_outside m m' (Ptr db doff) n"
proof -
  let ?img = "bounded_image text n"
  have li: "length ?img = n" using assms(1) by (rule length_bounded_image)
  have blk: "m' ! db = overwrite (m ! db) doff ?img"
    using assms(2) by (simp add: m'_def)
  have le: "doff \<le> length (m ! db)" using assms(3) by simp
  have dr: "drop doff (m' ! db) = ?img @ drop (doff + n) (m ! db)"
    using drop_overwrite [OF le, of ?img] by (simp only: blk li)
  have len: "length (m' ! db) = length (m ! db)"
    using assms(3) by (simp only: blk) (simp add: li)
  have lm: "length m' = length m" by (simp add: m'_def)
  show "cstring m' (Ptr db doff) = Some (take (n - 1) text)"
    using cstring_bounded_image [OF assms(1,4), of "drop (doff + n) (m ! db)"] assms(2)
    by (simp add: cstring_def dr lm)
  show "buffer_bytes m' (Ptr db doff) n = Some (bounded_image text n)"
    using assms(2,3) by (simp add: buffer_bytes_def dr lm len li)
  have tk: "take doff (m' ! db) = take doff (m ! db)"
    using take_overwrite [OF le, of ?img] by (simp only: blk)
  have dp: "drop (doff + n) (m' ! db) = drop (doff + n) (m ! db)"
    using drop_past_overwrite [of doff ?img "m ! db"] assms(3) by (simp only: blk li)
  have "m' = m[db := m' ! db]" by (simp only: blk) (simp add: m'_def)
  then show "unchanged_outside m m' (Ptr db doff) n"
    using len tk dp by (simp add: unchanged_outside_def)
qed


lemma valid_bufferE:
  assumes "valid_buffer m buf n"
  obtains db doff where "buf = Ptr db doff" "db < length m" "doff + n \<le> length (m ! db)"
  using assms by (cases buf) (simp_all add: valid_buffer_def)

lemma strerror_conformsE:
  assumes "strerror_conforms P errnum (Ptr db doff) m"
  obtains sb soff where "strerror P errnum = Ptr sb soff" "sb \<noteq> db" "sb < length m"
    "0 \<in> set (drop soff (m ! sb))"
    "platform_text P errnum m = Some (takeWhile (\<lambda>c. c \<noteq> 0) (drop soff (m ! sb)))"
proof (cases "strerror P errnum")
  case Null
  then show ?thesis using assms by (simp add: strerror_conforms_def separate_def)
next
  case (Ptr sb soff)
  then show ?thesis
    using assms that [of sb soff]
    by (simp add: strerror_conforms_def separate_def platform_text_def cstring_def
        split: if_splits)
qed

lemma strerror_r_copy_summary:
  fixes buflen :: "'w::len word"
  assumes "\<not> msc_ver tc" and "1 \<le> unat buflen"
    and "valid_buffer m buf (unat buflen)" and "strerror_conforms P errnum buf m"
  obtains m' msg where
    "strerror_r tc P errnum buf buflen m = Inr (buf, m')"
    "platform_text P errnum m = Some msg"
    "cstring m' buf = Some (take (unat buflen - 1) msg)"
    "buffer_bytes m' buf (unat buflen) = Some (bounded_image msg (unat buflen))"
    "unchanged_outside m m' buf (unat buflen)"
proof -
  let ?n = "unat buflen"
  obtain db doff where buf: "buf = Ptr db doff" and db: "db < length m"
    and fit: "doff + ?n \<le> length (m ! db)"
    using assms(3) by (rule valid_bufferE)
  obtain sb soff where src: "strerror P errnum = Ptr sb soff" and ne: "sb \<noteq> db"
    and sb: "sb < length m" and nul: "0 \<in> set (drop soff (m ! sb))"
    and ptxt: "platform_text P errnum m = Some (takeWhile (\<lambda>c. c \<noteq> 0) (drop soff (m ! sb)))"
    using assms(4) unfolding buf by (rule strerror_conformsE)
  let ?text = "takeWhile (\<lambda>c. c \<noteq> 0) (drop soff (m ! sb))"
  let ?m' = "m[db := overwrite (m ! db) doff (bounded_image ?text ?n)]"
  have nz: "buflen \<noteq> 0" and pos: "0 < ?n" using assms(2) by (auto simp: unat_gt_0)
  have run: "strerror_r tc P errnum buf buflen m = Inr (buf, ?m')"
    unfolding buf using assms(1) nz db fit src ne sb nul by (rule strerror_r_copy_result)
  have nn: "0 \<notin> set ?text" by (rule text_has_no_nul)
  show ?thesis
    using that [OF run ptxt] copy_image_properties [OF pos db fit nn]
    unfolding buf by blast
qed

lemma strerror_r_msvc_summary:
  fixes buflen :: "'w::len word"
  assumes "msc_ver tc" and "strerror_s_conforms P errnum buf (unat buflen) m"
  obtains m' msg where
    "strerror_r tc P errnum buf buflen m = Inr (buf, m')"
    "platform_text P errnum m = Some msg"
    "cstring m' buf = Some (take (unat buflen - 1) msg)"
    "unchanged_outside m m' buf (unat buflen)"
  using assms
  by (auto simp: strerror_r_def strerror_s_conforms_def split: sum.splits option.splits)

lemma strerror_r_summary:
  fixes buflen :: "'w::len word"
  assumes "1 \<le> unat buflen" and "valid_buffer m buf (unat buflen)"
    and "platform_conforms tc P errnum buf (unat buflen) m"
  obtains m' msg where
    "strerror_r tc P errnum buf buflen m = Inr (buf, m')"
    "platform_text P errnum m = Some msg"
    "cstring m' buf = Some (take (unat buflen - 1) msg)"
    "unchanged_outside m m' buf (unat buflen)"
proof (cases "msc_ver tc")
  case True
  then have "strerror_s_conforms P errnum buf (unat buflen) m"
    using assms(3) by (simp add: platform_conforms_def)
  with True show ?thesis using that by (rule strerror_r_msvc_summary)
next
  case False
  then have "strerror_conforms P errnum buf m"
    using assms(3) by (simp add: platform_conforms_def)
  with False assms(1,2) show ?thesis
    using that by (elim strerror_r_copy_summary) blast
qed

section \<open>The shimmed \<^verbatim>\<open>strerror_r\<close>\<close>

text \<open>
  The header defines the shim exactly where \<^verbatim>\<open>_WIN32\<close> is defined. On the worked
  input, a buffer of four bytes inside the caller's object receives the first three
  characters of the message and the terminator.
\<close>

lemma strerror_r_defined_under_win32:
  "(''strerror_r'' \<in> set (defined_functions (windows_portability_h tc))) = win32 tc"
  by (simp add: windows_portability_h_def)

lemma strerror_r_example:
  "strerror_r mingw example_platform 2 (Ptr 1 1) (4 :: 64 word) example_memory =
     Inr (Ptr 1 1, [[66, 97, 100, 32, 102, 105, 108, 101, 0], [170, 66, 97, 100, 0, 170]])"
proof -
  have "strerror_r mingw example_platform 2 (Ptr 1 1) (4 :: 64 word) example_memory =
        Inr (Ptr 1 1,
             example_memory[1 := overwrite (example_memory ! 1) 1
               (bounded_image (takeWhile (\<lambda>c. c \<noteq> 0) (drop 0 (example_memory ! 0)))
                  (unat (4 :: 64 word)))])"
    by (rule strerror_r_copy_result)
      (simp_all add: mingw_def example_platform_def example_memory_def)
  then show ?thesis
    by (simp add: example_memory_def overwrite_def bounded_image_def)
qed

text \<open>
  Claim C1. For every error number and every buffer of \<open>N = buflen \<ge> 1\<close> bytes, the
  shim returns and leaves in the buffer a null-terminated string of at most \<open>N - 1\<close>
  characters, and it writes within the \<open>N\<close> bytes of the buffer only. In the branch
  that delegates to \<^verbatim>\<open>strerror_s\<close> this is the runtime's documented contract
  (\<open>strerror_s_conforms\<close>); in the copying branch it is what \<^verbatim>\<open>strncpy\<close> and the
  store of the terminator do, given a \<^verbatim>\<open>strerror\<close> as the C standard describes it
  (\<open>strerror_conforms\<close>).
\<close>

theorem strerror_r_null_terminated:
  fixes buflen :: "'w::len word"
  assumes "1 \<le> unat buflen" and "valid_buffer m buf (unat buflen)"
    and "platform_conforms tc P errnum buf (unat buflen) m"
  shows "\<exists>m' s. strerror_r tc P errnum buf buflen m = Inr (buf, m') \<and>
           cstring m' buf = Some s \<and> length s \<le> unat buflen - 1 \<and>
           unchanged_outside m m' buf (unat buflen)"
proof -
  obtain m' msg where "strerror_r tc P errnum buf buflen m = Inr (buf, m')"
    and "cstring m' buf = Some (take (unat buflen - 1) msg)"
    and "unchanged_outside m m' buf (unat buflen)"
    using assms by (rule strerror_r_summary)
  moreover have "length (take (unat buflen - 1) msg) \<le> unat buflen - 1" by simp
  ultimately show ?thesis by blast
qed

theorem strerror_r_null_terminated_witness:
  "\<exists>m' s. strerror_r mingw example_platform 2 (Ptr 1 1) (4 :: 64 word) example_memory
             = Inr (Ptr 1 1, m') \<and>
          cstring m' (Ptr 1 1) = Some s \<and> length s \<le> unat (4 :: 64 word) - 1 \<and>
          unchanged_outside example_memory m' (Ptr 1 1) (unat (4 :: 64 word))"
  by (rule strerror_r_null_terminated)
    (simp_all add: valid_buffer_def platform_conforms_def strerror_conforms_def
      platform_text_def cstring_def separate_def mingw_def example_platform_def
      example_memory_def)

text \<open>
  Claim C2. Under the same preconditions the string the shim leaves in the buffer is the
  platform's error text for \<open>errnum\<close>, the string \<^verbatim>\<open>strerror(errnum)\<close> points to, or
  its first \<open>N - 1\<close> characters when the text is longer than that.
\<close>

theorem strerror_r_matches_platform_text:
  fixes buflen :: "'w::len word"
  assumes "1 \<le> unat buflen" and "valid_buffer m buf (unat buflen)"
    and "platform_conforms tc P errnum buf (unat buflen) m"
  shows "\<exists>m' msg. strerror_r tc P errnum buf buflen m = Inr (buf, m') \<and>
           platform_text P errnum m = Some msg \<and>
           cstring m' buf =
             Some (if length msg \<le> unat buflen - 1 then msg else take (unat buflen - 1) msg)"
proof -
  obtain m' msg where "strerror_r tc P errnum buf buflen m = Inr (buf, m')"
    and "platform_text P errnum m = Some msg"
    and "cstring m' buf = Some (take (unat buflen - 1) msg)"
    using assms by (rule strerror_r_summary)
  then show ?thesis by (intro exI [of _ m'] exI [of _ msg]) simp
qed

theorem strerror_r_matches_platform_text_witness:
  "\<exists>m' msg. strerror_r msvc example_platform 2 (Ptr 1 1) (4 :: 64 word) example_memory
               = Inr (Ptr 1 1, m') \<and>
          platform_text example_platform 2 example_memory = Some msg \<and>
          cstring m' (Ptr 1 1) =
            Some (if length msg \<le> unat (4 :: 64 word) - 1 then msg
                  else take (unat (4 :: 64 word) - 1) msg)"
  by (rule strerror_r_matches_platform_text)
    (simp_all add: valid_buffer_def platform_conforms_def strerror_s_conforms_def
      unchanged_outside_def overwrite_def platform_text_def cstring_def msvc_def
      example_platform_def example_strerror_s_def example_memory_def)

lemma strerror_r_returns_its_argument:
  "strerror_r tc P errnum buf buflen m = Inr (p, m') \<Longrightarrow> p = buf"
  by (auto simp: strerror_r_def Let_def split: if_splits sum.splits)

text \<open>
  Claim C8. In both branches the pointer the shim returns is the pointer \<open>buf\<close> it was
  given: whenever it returns at all, and it does return for a buffer of
  \<open>buflen \<ge> 1\<close> bytes, where \<open>buf\<close> is not null and, in the copying branch, is not the
  pointer to the library's storage that \<^verbatim>\<open>strerror\<close> returned.
\<close>

theorem strerror_r_returns_buf:
  fixes buflen :: "'w::len word"
  shows "(\<forall>p m'. strerror_r tc P errnum buf buflen m = Inr (p, m') \<longrightarrow> p = buf) \<and>
         (1 \<le> unat buflen \<and> valid_buffer m buf (unat buflen) \<and>
          platform_conforms tc P errnum buf (unat buflen) m \<longrightarrow>
            (\<exists>m'. strerror_r tc P errnum buf buflen m = Inr (buf, m')) \<and> buf \<noteq> Null \<and>
            (\<not> msc_ver tc \<longrightarrow> buf \<noteq> strerror P errnum))"
proof (intro conjI allI impI)
  fix p m'
  assume "strerror_r tc P errnum buf buflen m = Inr (p, m')"
  then show "p = buf" by (rule strerror_r_returns_its_argument)
next
  assume pre: "1 \<le> unat buflen \<and> valid_buffer m buf (unat buflen) \<and>
          platform_conforms tc P errnum buf (unat buflen) m"
  then obtain m' where "strerror_r tc P errnum buf buflen m = Inr (buf, m')"
    by (elim conjE strerror_r_summary)
  then show "\<exists>m'. strerror_r tc P errnum buf buflen m = Inr (buf, m')" ..
  show "buf \<noteq> Null" using pre by (auto simp: valid_buffer_def)
next
  assume pre: "1 \<le> unat buflen \<and> valid_buffer m buf (unat buflen) \<and>
          platform_conforms tc P errnum buf (unat buflen) m" and "\<not> msc_ver tc"
  then have "separate (strerror P errnum) buf"
    by (simp add: platform_conforms_def strerror_conforms_def)
  then show "buf \<noteq> strerror P errnum"
    by (auto simp: separate_def split: ptr.splits)
qed

theorem strerror_r_returns_buf_witness:
  "(\<exists>m'. strerror_r mingw example_platform 13 (Ptr 1 0) (6 :: 64 word) example_memory
            = Inr (Ptr 1 0, m')) \<and>
   Ptr 1 0 \<noteq> Null \<and> Ptr 1 0 \<noteq> strerror example_platform 13"
proof -
  have "1 \<le> unat (6 :: 64 word) \<and>
        valid_buffer example_memory (Ptr 1 0) (unat (6 :: 64 word)) \<and>
        platform_conforms mingw example_platform 13 (Ptr 1 0) (unat (6 :: 64 word))
          example_memory"
    by (simp add: valid_buffer_def platform_conforms_def strerror_conforms_def
      platform_text_def cstring_def separate_def mingw_def example_platform_def
      example_memory_def)
  moreover have "\<not> msc_ver mingw" by (simp add: mingw_def)
  ultimately show ?thesis
    using strerror_r_returns_buf [of mingw example_platform 13 "Ptr 1 0" "6 :: 64 word"
        example_memory]
    by blast
qed

lemma unat_zero_minus_one: "unat (0 - 1 :: 'w::len word) = 2 ^ LENGTH('w) - 1"
  by (simp add: unsigned_minus_1_eq_mask mask_eq_exp_minus_1)

lemma store_past_size_max:
  assumes "valid_buffer m buf n" and "sizes_fit w m"
  shows "store m buf (2 ^ w - 1) c = Inl OutOfBounds"
proof -
  obtain db doff where buf: "buf = Ptr db doff" and db: "db < length m"
    using assms(1) by (rule valid_bufferE)
  have "length (m ! db) < 2 ^ w"
    using assms(2) db by (simp add: sizes_fit_def list_all_length)
  then have "\<not> doff + (2 ^ w - 1) < length (m ! db)" by simp
  then show ?thesis using db by (simp add: buf store_def)
qed

lemma strerror_r_copy_zero:
  assumes "\<not> msc_ver tc" and "valid_buffer m buf 0" and "sizes_fit LENGTH('w) m"
  shows "strncpy m buf (strerror P errnum) (unat (0 :: 'w::len word)) = Inr m"
    and "strerror_r tc P errnum buf (0 :: 'w::len word) m = Inl OutOfBounds"
proof -
  show cp: "strncpy m buf (strerror P errnum) (unat (0 :: 'w word)) = Inr m"
    by (simp add: strncpy_def)
  have st: "store m buf (unat (0 - 1 :: 'w word)) 0 = Inl OutOfBounds"
    using store_past_size_max [OF assms(2,3)] by (simp only: unat_zero_minus_one)
  show "strerror_r tc P errnum buf (0 :: 'w word) m = Inl OutOfBounds"
    using assms(1) cp st by (simp add: strerror_r_def)
qed

text \<open>
  Claim C10. In the copying branch the precondition \<open>buflen \<ge> 1\<close> is what keeps the
  accesses in bounds. For a buffer of \<open>buflen \<ge> 1\<close> bytes the \<^verbatim>\<open>strncpy\<close> of
  \<open>buflen\<close> bytes and the store to \<^verbatim>\<open>buf[buflen - 1]\<close> stay inside the buffer. For
  \<open>buflen = 0\<close> the \<^verbatim>\<open>strncpy\<close> writes nothing, \<^verbatim>\<open>buflen - 1\<close> wraps to
  \<^verbatim>\<open>SIZE_MAX\<close>, and the store to \<^verbatim>\<open>buf[SIZE_MAX]\<close> falls outside the object, whatever
  its size.
\<close>

theorem buflen_at_least_one_needed:
  fixes buflen :: "'w::len word"
  assumes "\<not> msc_ver tc" and "valid_buffer m buf (unat buflen)"
    and "strerror_conforms P errnum buf m" and "sizes_fit LENGTH('w) m"
  shows "(1 \<le> unat buflen \<longrightarrow>
            (\<exists>m'. strerror_r tc P errnum buf buflen m = Inr (buf, m') \<and>
                  unchanged_outside m m' buf (unat buflen))) \<and>
         (buflen = 0 \<longrightarrow>
            strncpy m buf (strerror P errnum) (unat buflen) = Inr m \<and>
            store m buf (unat (buflen - 1)) 0 = Inl OutOfBounds \<and>
            strerror_r tc P errnum buf buflen m = Inl OutOfBounds)"
proof (intro conjI impI)
  assume "1 \<le> unat buflen"
  then obtain m' where "strerror_r tc P errnum buf buflen m = Inr (buf, m')"
    and "unchanged_outside m m' buf (unat buflen)"
    using assms(1-3) by (elim strerror_r_copy_summary [where tc = tc and P = P]) auto
  then show "\<exists>m'. strerror_r tc P errnum buf buflen m = Inr (buf, m') \<and>
                  unchanged_outside m m' buf (unat buflen)" by blast
next
  assume z: "buflen = 0"
  show cp: "strncpy m buf (strerror P errnum) (unat buflen) = Inr m"
    by (simp add: z strncpy_def)
  show st: "store m buf (unat (buflen - 1)) 0 = Inl OutOfBounds"
    using store_past_size_max [OF assms(2,4)] by (simp only: z unat_zero_minus_one)
  show "strerror_r tc P errnum buf buflen m = Inl OutOfBounds"
    using assms(1) cp st by (simp add: strerror_r_def)
qed

theorem buflen_at_least_one_needed_witness:
  "(\<exists>m'. strerror_r mingw example_platform 2 (Ptr 1 1) (4 :: 64 word) example_memory
            = Inr (Ptr 1 1, m') \<and>
          unchanged_outside example_memory m' (Ptr 1 1) (unat (4 :: 64 word))) \<and>
   strerror_r mingw example_platform 2 (Ptr 1 1) (0 :: 64 word) example_memory
     = Inl OutOfBounds"
proof -
  have tc: "\<not> msc_ver mingw" by (simp add: mingw_def)
  have sc: "strerror_conforms example_platform 2 (Ptr 1 1) example_memory"
    by (simp add: strerror_conforms_def platform_text_def cstring_def separate_def
        example_platform_def example_memory_def)
  have sz: "sizes_fit LENGTH(64) example_memory"
    by (simp add: sizes_fit_def example_memory_def)
  have v4: "valid_buffer example_memory (Ptr 1 1) (unat (4 :: 64 word))"
    and v0: "valid_buffer example_memory (Ptr 1 1) (unat (0 :: 64 word))"
    by (simp_all add: valid_buffer_def example_memory_def)
  show ?thesis
    using buflen_at_least_one_needed [OF tc v4 sc sz]
      buflen_at_least_one_needed [OF tc v0 sc sz]
    by simp
qed

lemma store_in_object:
  "(\<exists>m'. store m p i c = Inr m') = in_object m p i"
  by (cases p) (auto simp: store_def in_object_def)

lemma in_object_after_store:
  assumes "store m p i c = Inr m'"
  shows "in_object m' p j = in_object m p j"
proof (cases p)
  case Null
  then show ?thesis by (simp add: in_object_def)
next
  case (Ptr b off)
  then have "m' = m[b := (m ! b)[off + i := c]]" and "b < length m"
    using assms by (auto simp: store_def split: if_splits)
  then show ?thesis by (simp add: in_object_def Ptr)
qed

lemma zero_fill_reaches:
  "zero_fill m p i (Suc k) = Inr m' \<Longrightarrow> in_object m' p (i + k)"
proof (induction k arbitrary: m i)
  case 0
  then obtain m1 where st: "store m p i 0 = Inr m1" and "m' = m1"
    by (auto split: sum.splits)
  then show ?case using store_in_object [of m p i 0] in_object_after_store [OF st, of i] by auto
next
  case (Suc k)
  then obtain m1 where st: "store m p i 0 = Inr m1"
    and rest: "zero_fill m1 p (Suc i) (Suc k) = Inr m'"
    by (auto split: sum.splits)
  from Suc.IH [OF rest] show ?case by simp
qed

lemma strncpy_from_reaches:
  "strncpy_from m p src n i (Suc k) = Inr m' \<Longrightarrow> in_object m' p (i + k)"
proof (induction k arbitrary: m i)
  case 0
  show ?case
  proof (cases "load m src i")
    case (Inl e)
    then show ?thesis using 0 by (simp split: if_splits)
  next
    case (Inr c)
    show ?thesis
    proof (cases "c = 0")
      case True
      then have "zero_fill m p i (Suc 0) = Inr m'" using 0 Inr by (simp split: if_splits)
      from zero_fill_reaches [OF this] show ?thesis by simp
    next
      case False
      then obtain m1 where st: "store m p i c = Inr m1" and "m' = m1"
        using 0 Inr by (auto split: if_splits sum.splits)
      then show ?thesis
        using store_in_object [of m p i c] in_object_after_store [OF st, of i] by auto
    qed
  qed
next
  case (Suc k)
  show ?case
  proof (cases "load m src i")
    case (Inl e)
    then show ?thesis using Suc.prems by (simp split: if_splits)
  next
    case (Inr c)
    show ?thesis
    proof (cases "c = 0")
      case True
      then have "zero_fill m p i (Suc (Suc k)) = Inr m'"
        using Suc.prems Inr by (simp split: if_splits)
      from zero_fill_reaches [OF this] show ?thesis by simp
    next
      case False
      then obtain m1 where "strncpy_from m1 p src n (Suc i) (Suc k) = Inr m'"
        using Suc.prems Inr by (auto split: if_splits sum.splits)
      from Suc.IH [OF this] show ?thesis by simp
    qed
  qed
qed

lemma strerror_r_fault_copy:
  fixes buflen :: "'w::len word"
  assumes "\<not> msc_ver tc" and "1 \<le> unat buflen"
  shows "(strerror_r tc P errnum buf buflen m = Inl e) =
         (strncpy m buf (strerror P errnum) (unat buflen) = Inl e)"
proof (cases "strncpy m buf (strerror P errnum) (unat buflen)")
  case (Inl e')
  then show ?thesis using assms(1) by (simp add: strerror_r_def)
next
  case (Inr m2)
  obtain k where k: "unat buflen = Suc k" using assms(2) by (cases "unat buflen") auto
  have nz: "buflen \<noteq> 0" using assms(2) by auto
  have "in_object m2 buf (0 + k)"
    using Inr unfolding strncpy_def k by (rule strncpy_from_reaches)
  then obtain m3 where "store m2 buf k 0 = Inr m3"
    using store_in_object [of m2 buf k 0] by auto
  moreover have "unat (buflen - 1) = k" using nz k by (simp add: unat_minus_one)
  ultimately show ?thesis using assms(1) Inr by (simp add: strerror_r_def)
qed

lemma strerror_r_fault_msvc:
  "msc_ver tc \<Longrightarrow>
   (strerror_r tc P errnum buf buflen m = Inl e) = (strerror_s P buf (unat buflen) errnum m = Inl e)"
  by (auto simp: strerror_r_def split: sum.splits)

lemma strerror_r_example_other:
  "strerror_r mingw example_platform 2 (Ptr 1 1) (4 :: 64 word) example_memory_other =
     Inr (Ptr 1 1, [[79, 116, 104, 101, 114, 0], [170, 79, 116, 104, 0, 170]])"
proof -
  have "strerror_r mingw example_platform 2 (Ptr 1 1) (4 :: 64 word) example_memory_other =
        Inr (Ptr 1 1,
             example_memory_other[1 := overwrite (example_memory_other ! 1) 1
               (bounded_image (takeWhile (\<lambda>c. c \<noteq> 0) (drop 0 (example_memory_other ! 0)))
                  (unat (4 :: 64 word)))])"
    by (rule strerror_r_copy_result)
      (simp_all add: mingw_def example_platform_def example_memory_other_def)
  then show ?thesis
    by (simp add: example_memory_other_def overwrite_def bounded_image_def)
qed

lemma strerror_r_example_short:
  "strerror_r msvc example_platform 2 (Ptr 1 0) (6 :: 64 word) short_memory_1 =
     Inr (Ptr 1 0, [[72, 105, 0], [72, 105, 0, 1, 1, 1]])"
  "strerror_r msvc example_platform 2 (Ptr 1 0) (6 :: 64 word) short_memory_2 =
     Inr (Ptr 1 0, [[72, 105, 0], [72, 105, 0, 2, 2, 2]])"
  by (simp_all add: strerror_r_def msvc_def example_platform_def example_strerror_s_def
      valid_buffer_def cstring_def overwrite_def short_memory_1_def short_memory_2_def)


lemma two_runs_agree:
  fixes buflen :: "'w::len word"
  assumes "1 \<le> unat buflen"
    and "valid_buffer m1 buf1 (unat buflen)" and "valid_buffer m2 buf2 (unat buflen)"
    and "platform_conforms tc P errnum buf1 (unat buflen) m1"
    and "platform_conforms tc P errnum buf2 (unat buflen) m2"
    and "platform_text P errnum m1 = platform_text P errnum m2"
  shows "\<exists>m1' m2' s.
           strerror_r tc P errnum buf1 buflen m1 = Inr (buf1, m1') \<and>
           strerror_r tc P errnum buf2 buflen m2 = Inr (buf2, m2') \<and>
           cstring m1' buf1 = Some s \<and> cstring m2' buf2 = Some s \<and>
           (\<not> msc_ver tc \<longrightarrow>
              buffer_bytes m1' buf1 (unat buflen) \<noteq> None \<and>
              buffer_bytes m1' buf1 (unat buflen) = buffer_bytes m2' buf2 (unat buflen)) \<and>
           unchanged_outside m1 m1' buf1 (unat buflen) \<and>
           unchanged_outside m2 m2' buf2 (unat buflen)"
proof (cases "msc_ver tc")
  case True
  obtain m1' msg1 where r1: "strerror_r tc P errnum buf1 buflen m1 = Inr (buf1, m1')"
    and t1: "platform_text P errnum m1 = Some msg1"
    and s1: "cstring m1' buf1 = Some (take (unat buflen - 1) msg1)"
    and u1: "unchanged_outside m1 m1' buf1 (unat buflen)"
    using assms(1,2,4) by (rule strerror_r_summary)
  obtain m2' msg2 where r2: "strerror_r tc P errnum buf2 buflen m2 = Inr (buf2, m2')"
    and t2: "platform_text P errnum m2 = Some msg2"
    and s2: "cstring m2' buf2 = Some (take (unat buflen - 1) msg2)"
    and u2: "unchanged_outside m2 m2' buf2 (unat buflen)"
    using assms(1,3,5) by (rule strerror_r_summary)
  have "msg1 = msg2" using t1 t2 assms(6) by simp
  then show ?thesis
    using r1 r2 s1 s2 u1 u2 True by auto
next
  case False
  then have c1: "strerror_conforms P errnum buf1 m1" and c2: "strerror_conforms P errnum buf2 m2"
    using assms(4,5) by (simp_all add: platform_conforms_def)
  obtain m1' msg1 where r1: "strerror_r tc P errnum buf1 buflen m1 = Inr (buf1, m1')"
    and t1: "platform_text P errnum m1 = Some msg1"
    and s1: "cstring m1' buf1 = Some (take (unat buflen - 1) msg1)"
    and b1: "buffer_bytes m1' buf1 (unat buflen) = Some (bounded_image msg1 (unat buflen))"
    and u1: "unchanged_outside m1 m1' buf1 (unat buflen)"
    using False assms(1,2) c1 by (rule strerror_r_copy_summary)
  obtain m2' msg2 where r2: "strerror_r tc P errnum buf2 buflen m2 = Inr (buf2, m2')"
    and t2: "platform_text P errnum m2 = Some msg2"
    and s2: "cstring m2' buf2 = Some (take (unat buflen - 1) msg2)"
    and b2: "buffer_bytes m2' buf2 (unat buflen) = Some (bounded_image msg2 (unat buflen))"
    and u2: "unchanged_outside m2 m2' buf2 (unat buflen)"
    using False assms(1,3) c2 by (rule strerror_r_copy_summary)
  have "msg1 = msg2" using t1 t2 assms(6) by simp
  then show ?thesis
    using r1 r2 s1 s2 b1 b2 u1 u2 False by auto
qed



lemma bounded_copy_result:
  assumes "0 < n" and "db < length m" and "doff + n \<le> length (m ! db)"
    and "platform_text P errnum m = Some msg"
  shows "bounded_copy_of_strerror P errnum (Ptr db doff) n m =
         Some (Ptr db doff, m[db := overwrite (m ! db) doff (bounded_image msg n)])"
  using assms take_pad_last [OF assms(1), of msg]
  by (simp add: bounded_copy_of_strerror_def valid_buffer_def bounded_image_def)

text \<open>
  Claim C3. As stated, on every input, the claim fails for the copying branch: with
  \<open>buflen = 0\<close> a copy bounded by the buffer writes nothing and hands the buffer back,
  while the shim stores its terminator at \<^verbatim>\<open>buf[buflen - 1]\<close>, outside the buffer.
\<close>

theorem copy_is_not_bounded_at_zero:
  "\<not> msc_ver mingw \<and>
   valid_buffer example_memory (Ptr 1 1) (unat (0 :: 64 word)) \<and>
   strerror_conforms example_platform 2 (Ptr 1 1) example_memory \<and>
   bounded_copy_of_strerror example_platform 2 (Ptr 1 1) (unat (0 :: 64 word)) example_memory
     = Some (Ptr 1 1, example_memory) \<and>
   strerror_r mingw example_platform 2 (Ptr 1 1) (0 :: 64 word) example_memory
     = Inl OutOfBounds"
proof -
  have tc: "\<not> msc_ver mingw" by (simp add: mingw_def)
  have v: "valid_buffer example_memory (Ptr 1 1) 0"
    by (simp add: valid_buffer_def example_memory_def)
  have sc: "strerror_conforms example_platform 2 (Ptr 1 1) example_memory"
    by (simp add: strerror_conforms_def platform_text_def cstring_def separate_def
        example_platform_def example_memory_def)
  have sz: "sizes_fit LENGTH(64) example_memory"
    by (simp add: sizes_fit_def example_memory_def)
  have rf: "bounded_copy_of_strerror example_platform 2 (Ptr 1 1) 0 example_memory
            = Some (Ptr 1 1, example_memory)"
    by (simp add: bounded_copy_of_strerror_def platform_text_def cstring_def valid_buffer_def
        overwrite_def example_platform_def example_memory_def)
  show ?thesis
    using tc v sc rf strerror_r_copy_zero(2) [OF tc v sz, of example_platform 2] by simp
qed

text \<open>
  Claim C3, amended. The shim is one of two references, and which one depends on the
  compiler family alone. Where \<^verbatim>\<open>_MSC_VER\<close> is defined it is the delegation to
  \<^verbatim>\<open>strerror_s(buf, buflen, errnum)\<close>, on every input. Everywhere else, on a buffer of
  \<open>buflen \<ge> 1\<close> bytes, it is the buffer-bounded copy of \<^verbatim>\<open>strerror(errnum)\<close>: the two
  return the same pointer and leave the same store, byte for byte. Two toolchains that
  agree on \<^verbatim>\<open>_MSC_VER\<close> compile the same function.
\<close>

theorem strerror_r_is_one_of_two_references:
  fixes buflen :: "'w::len word"
  shows "(msc_ver tc \<longrightarrow>
            strerror_r tc P errnum buf buflen m =
              delegate_to_strerror_s P errnum buf (unat buflen) m) \<and>
         (\<not> msc_ver tc \<and> 1 \<le> unat buflen \<and> valid_buffer m buf (unat buflen) \<and>
          strerror_conforms P errnum buf m \<longrightarrow>
            (\<exists>r. strerror_r tc P errnum buf buflen m = Inr r \<and>
                 bounded_copy_of_strerror P errnum buf (unat buflen) m = Some r)) \<and>
         (msc_ver tc' = msc_ver tc \<longrightarrow>
            strerror_r tc' P errnum buf buflen m = strerror_r tc P errnum buf buflen m)"
proof (intro conjI impI)
  assume "msc_ver tc"
  then show "strerror_r tc P errnum buf buflen m =
             delegate_to_strerror_s P errnum buf (unat buflen) m"
    by (simp add: strerror_r_def delegate_to_strerror_s_def)
next
  let ?n = "unat buflen"
  assume pre: "\<not> msc_ver tc \<and> 1 \<le> ?n \<and> valid_buffer m buf ?n \<and>
          strerror_conforms P errnum buf m"
  then obtain db doff where buf: "buf = Ptr db doff" and db: "db < length m"
    and fit: "doff + ?n \<le> length (m ! db)"
    by (elim conjE valid_bufferE)
  obtain sb soff where src: "strerror P errnum = Ptr sb soff" and ne: "sb \<noteq> db"
    and sb: "sb < length m" and nul: "0 \<in> set (drop soff (m ! sb))"
    and ptxt: "platform_text P errnum m = Some (takeWhile (\<lambda>c. c \<noteq> 0) (drop soff (m ! sb)))"
    using pre unfolding buf by (elim conjE strerror_conformsE)
  have nz: "buflen \<noteq> 0" and pos: "0 < ?n" using pre by (auto simp: unat_gt_0)
  have tc: "\<not> msc_ver tc" using pre by simp
  have "strerror_r tc P errnum buf buflen m =
        Inr (buf, m[db := overwrite (m ! db) doff
               (bounded_image (takeWhile (\<lambda>c. c \<noteq> 0) (drop soff (m ! sb))) ?n)])"
    unfolding buf using tc nz db fit src ne sb nul by (rule strerror_r_copy_result)
  moreover have "bounded_copy_of_strerror P errnum buf ?n m =
        Some (buf, m[db := overwrite (m ! db) doff
               (bounded_image (takeWhile (\<lambda>c. c \<noteq> 0) (drop soff (m ! sb))) ?n)])"
    unfolding buf using pos db fit ptxt by (rule bounded_copy_result)
  ultimately show "\<exists>r. strerror_r tc P errnum buf buflen m = Inr r \<and>
                 bounded_copy_of_strerror P errnum buf ?n m = Some r" by blast
next
  assume "msc_ver tc' = msc_ver tc"
  then show "strerror_r tc' P errnum buf buflen m = strerror_r tc P errnum buf buflen m"
    by (simp add: strerror_r_def)
qed

theorem strerror_r_is_one_of_two_references_witness:
  "strerror_r msvc example_platform 2 (Ptr 1 1) (4 :: 64 word) example_memory =
     delegate_to_strerror_s example_platform 2 (Ptr 1 1) (unat (4 :: 64 word)) example_memory \<and>
   (\<exists>r. strerror_r mingw example_platform 2 (Ptr 1 1) (4 :: 64 word) example_memory = Inr r \<and>
        bounded_copy_of_strerror example_platform 2 (Ptr 1 1) (unat (4 :: 64 word))
          example_memory = Some r) \<and>
   strerror_r msvc_openmp example_platform 2 (Ptr 1 1) (4 :: 64 word) example_memory =
     strerror_r msvc example_platform 2 (Ptr 1 1) (4 :: 64 word) example_memory"
proof -
  have a: "msc_ver msvc" and b: "\<not> msc_ver mingw" and c: "msc_ver msvc_openmp = msc_ver msvc"
    by (simp_all add: msvc_def mingw_def msvc_openmp_def)
  have pre: "1 \<le> unat (4 :: 64 word) \<and>
             valid_buffer example_memory (Ptr 1 1) (unat (4 :: 64 word)) \<and>
             strerror_conforms example_platform 2 (Ptr 1 1) example_memory"
    by (simp add: valid_buffer_def strerror_conforms_def platform_text_def cstring_def
        separate_def example_platform_def example_memory_def)
  show ?thesis
    using strerror_r_is_one_of_two_references
            [of msvc example_platform 2 "Ptr 1 1" "4 :: 64 word" example_memory msvc]
      strerror_r_is_one_of_two_references
            [of mingw example_platform 2 "Ptr 1 1" "4 :: 64 word" example_memory mingw]
      strerror_r_is_one_of_two_references
            [of msvc example_platform 2 "Ptr 1 1" "4 :: 64 word" example_memory msvc_openmp]
      a b c pre
    by blast
qed

section \<open>Macro replacement against the headers' tables\<close>

lemma followed_by_simps [simp]:
  "followed_by xs (Inl e) = Inl e"
  "followed_by xs (Inr ys) = Inr (xs @ ys)"
  by (simp_all add: followed_by_def)

lemma followed_by_followed_by:
  "followed_by xs (followed_by ys r) = followed_by (xs @ ys) r"
  by (cases r) simp_all

lemma followed_by_Nil [simp]: "followed_by [] r = r"
  by (cases r) simp_all

lemma collect_argument:
  "closes d a \<Longrightarrow> collect d (a @ ts) cur acc = collect 0 ts (rev a @ cur) acc"
proof (induction d a arbitrary: cur rule: closes.induct)
qed auto

lemma collect_two_arguments:
  assumes "argument a" and "argument b"
  shows "collect 0 (a @ Comma # b @ RParen # ts) [] [] = Some ([a, b], ts)"
  using assms by (simp add: argument_def collect_argument)

lemma collect_one_argument:
  assumes "argument a"
  shows "collect 0 (a @ RParen # ts) [] [] = Some ([a], ts)"
  using assms by (simp add: argument_def collect_argument)

lemma windows_macros:
  assumes "win32 tc"
  shows "map_of (macros (windows_portability_h tc)) ''getpid'' = Some (ObjectLike [Ident ''_getpid''])"
    and "map_of (macros (windows_portability_h tc)) ''access'' = Some (ObjectLike [Ident ''_access''])"
    and "map_of (macros (windows_portability_h tc)) ''mkdir'' =
           Some (FunctionLike [''name'', ''mode''] [Ident ''_mkdir'', LParen, Ident ''name'', RParen])"
    and "map_of (macros (windows_portability_h tc)) ''_getpid'' = None"
    and "map_of (macros (windows_portability_h tc)) ''_access'' = None"
    and "map_of (macros (windows_portability_h tc)) ''_mkdir'' = None"
    and "map_of (macros (windows_portability_h tc)) ''__attribute__'' =
           (if gnuc tc then None else Some (FunctionLike [''x''] []))"
  using assms by (simp_all add: windows_portability_h_def)

lemma other_macros:
  assumes "\<not> win32 tc"
  shows "map_of (macros (windows_portability_h tc)) n =
           (if n = ''WINDOWS_PORTABILITY_H'' then Some (ObjectLike []) else None)"
  using assms by (simp add: windows_portability_h_def)

lemma header_macros_need_no_rescan:
  "needs_no_rescan (macros (windows_portability_h tc))"
  "needs_no_rescan (macros (common_windows_h tc))"
  by (simp_all add: needs_no_rescan_def mentions_def windows_portability_h_def
      common_windows_h_def)

lemma expand_mkdir:
  assumes "win32 tc" and "argument name" and "argument mode"
  shows "expand (macros (windows_portability_h tc))
           (Ident ''mkdir'' # LParen # name @ Comma # mode @ RParen # ts) =
         (case expand (macros (windows_portability_h tc)) name of
            Inl e \<Rightarrow> Inl e
          | Inr ename \<Rightarrow>
              followed_by ([Ident ''_mkdir'', LParen] @ ename @ [RParen])
                (expand (macros (windows_portability_h tc)) ts))"
  using assms
  by (simp add: windows_macros collect_two_arguments split: sum.splits)

lemma expand_attribute:
  assumes "win32 tc" and "\<not> gnuc tc" and "argument x"
  shows "expand (macros (windows_portability_h tc))
           (Ident ''__attribute__'' # LParen # x @ RParen # ts) =
         expand (macros (windows_portability_h tc)) ts"
  using assms
  by (simp add: windows_macros collect_one_argument)


lemma then_followed_by:
  "(case followed_by xs r of Inl e \<Rightarrow> Inl e | Inr ea \<Rightarrow> followed_by (ea @ ys) q) =
   followed_by xs (case r of Inl e \<Rightarrow> Inl e | Inr ea \<Rightarrow> followed_by (ea @ ys) q)"
  by (cases r; cases q) simp_all

lemma collect_split:
  "closes (c + Suc d) a \<Longrightarrow>
   \<exists>args r. (\<forall>X. collect c (a @ X) cur acc = Some (args, r @ X)) \<and> closes d r \<and>
            length r < length a"
proof (induction a arbitrary: c cur acc)
  case Nil
  then show ?case by simp
next
  case (Cons t a)
  show ?case
  proof (cases t)
    case (Ident x)
    then have "closes (c + Suc d) a" using Cons.prems by simp
    from Cons.IH [OF this, of "Ident x # cur" acc] show ?thesis
      using Ident by (auto simp: less_Suc_eq)
  next
    case LParen
    then have "closes (Suc c + Suc d) a" using Cons.prems by simp
    from Cons.IH [OF this, of "LParen # cur" acc] show ?thesis
      using LParen by (auto simp: less_Suc_eq)
  next
    case RParen
    show ?thesis
    proof (cases c)
      case 0
      then have "closes d a" using Cons.prems RParen by simp
      then show ?thesis using RParen 0 by auto
    next
      case (Suc c')
      then have "closes (c' + Suc d) a" using Cons.prems RParen by simp
      from Cons.IH [OF this, of "RParen # cur" acc] show ?thesis
        using RParen Suc by (auto simp: less_Suc_eq)
    qed
  next
    case Comma
    then have cl: "closes (c + Suc d) a" using Cons.prems by simp
    show ?thesis
    proof (cases c)
      case 0
      from Cons.IH [OF cl, of "[]" "rev cur # acc"] show ?thesis
        using Comma 0 by (auto simp: less_Suc_eq)
    next
      case (Suc c')
      from Cons.IH [OF cl, of "Comma # cur" acc] show ?thesis
        using Comma Suc by (auto simp: less_Suc_eq)
    qed
  next
    case (Other x)
    then have "closes (c + Suc d) a" using Cons.prems by simp
    from Cons.IH [OF this, of "Other x # cur" acc] show ?thesis
      using Other by (auto simp: less_Suc_eq)
  qed
qed


lemma closes_tail: "closes d (t # a) \<Longrightarrow> \<exists>d'. closes d' a"
  by (cases t) auto

lemma expand_plain_head:
  assumes "\<not> (\<exists>n ps body. t = Ident n \<and> map_of tbl n = Some (FunctionLike ps body))"
  shows "\<exists>xs. \<forall>rest. expand tbl (t # rest) = followed_by xs (expand tbl rest)"
proof (cases t)
  case (Ident n)
  show ?thesis
  proof (cases "map_of tbl n")
    case None
    then show ?thesis using Ident by auto
  next
    case (Some mac)
    then show ?thesis using Ident assms by (cases mac) auto
  qed
qed auto

lemma expand_unapplied_head:
  assumes "map_of tbl n = Some (FunctionLike ps body)" and "rest = [] \<or> hd rest \<noteq> LParen"
  shows "expand tbl (Ident n # rest) = followed_by [Ident n] (expand tbl rest)"
proof (cases rest)
  case Nil
  then show ?thesis using assms(1) by simp
next
  case (Cons t rest')
  then have "t \<noteq> LParen" using assms(2) by simp
  then show ?thesis using assms(1) Cons by (cases t) simp_all
qed

lemma expand_then_rparen:
  "closes d a \<Longrightarrow>
   expand tbl (a @ RParen # ts) =
     (case expand tbl a of
        Inl e \<Rightarrow> Inl e
      | Inr ea \<Rightarrow> followed_by (ea @ [RParen]) (expand tbl ts))"
proof (induction "length a" arbitrary: a d rule: less_induct)
  case less
  show ?case
  proof (cases a)
    case Nil
    then show ?thesis by simp
  next
    case (Cons t a')
    obtain d' where cl': "closes d' a'" using less.prems Cons closes_tail by blast
    have IH: "expand tbl (a' @ RParen # ts) =
       (case expand tbl a' of
          Inl e \<Rightarrow> Inl e
        | Inr ea \<Rightarrow> followed_by (ea @ [RParen]) (expand tbl ts))"
      using less.hyps [OF _ cl'] Cons by simp
    show ?thesis
    proof (cases "\<exists>n ps body. t = Ident n \<and> map_of tbl n = Some (FunctionLike ps body)")
      case False
      then obtain xs where xs: "\<And>rest. expand tbl (t # rest) = followed_by xs (expand tbl rest)"
        using expand_plain_head by blast
      show ?thesis
        unfolding Cons append_Cons xs IH then_followed_by by (rule refl)
    next
      case True
      then obtain n ps body where t: "t = Ident n"
        and mac: "map_of tbl n = Some (FunctionLike ps body)" by blast
      show ?thesis
      proof (cases "a' = [] \<or> hd a' \<noteq> LParen")
        case True
        then have "a' @ RParen # ts = [] \<or> hd (a' @ RParen # ts) \<noteq> LParen"
          by (cases a') auto
        then have e1: "expand tbl (Ident n # a' @ RParen # ts) =
                   followed_by [Ident n] (expand tbl (a' @ RParen # ts))"
          using mac by (rule expand_unapplied_head [rotated])
        have e2: "expand tbl (Ident n # a') = followed_by [Ident n] (expand tbl a')"
          using mac True by (rule expand_unapplied_head)
        show ?thesis
          unfolding Cons t append_Cons e1 e2 IH then_followed_by by (rule refl)
      next
        case False
        then obtain a'' where a': "a' = LParen # a''" by (cases a') auto
        have "closes (0 + Suc d) a''" using less.prems Cons t a' by simp
        then obtain args r where
          col: "\<And>X. collect 0 (a'' @ X) [] [] = Some (args, r @ X)"
          and clr: "closes d r" and shorter: "length r < length a''"
          using collect_split [of 0 d a'' "[]" "[]"] by blast
        have IHr: "expand tbl (r @ RParen # ts) =
           (case expand tbl r of
              Inl e \<Rightarrow> Inl e
            | Inr ea \<Rightarrow> followed_by (ea @ [RParen]) (expand tbl ts))"
          using less.hyps [OF _ clr] shorter Cons a' by simp
        have col0: "collect 0 a'' [] [] = Some (args, r)" using col [of "[]"] by simp
        show ?thesis
          unfolding Cons t a' append_Cons
          using mac col [of "RParen # ts"] col0 IHr
          by (simp add: then_followed_by followed_by_followed_by split: sum.splits)
      qed
    qed
  qed
qed


lemma crt_name_simps [simp]:
  "crt_name LParen = LParen" "crt_name RParen = RParen" "crt_name Comma = Comma"
  "crt_name (Other x) = Other x"
  "crt_name (Ident ''getpid'') = Ident ''_getpid''"
  "crt_name (Ident ''access'') = Ident ''_access''"
  "n \<noteq> ''getpid'' \<Longrightarrow> n \<noteq> ''access'' \<Longrightarrow> crt_name (Ident n) = Ident n"
  by (simp_all add: crt_name_def)

lemma crt_name_cases:
  obtains (paren) "t = LParen" | (close) "t = RParen" | (comma) "t = Comma"
  | (word) "t \<noteq> LParen" "t \<noteq> RParen" "t \<noteq> Comma"
      "crt_name t \<noteq> LParen" "crt_name t \<noteq> RParen" "crt_name t \<noteq> Comma"
  by (cases t) (auto simp: crt_name_def)

lemma collect_word:
  "t \<noteq> LParen \<Longrightarrow> t \<noteq> RParen \<Longrightarrow> t \<noteq> Comma \<Longrightarrow>
   collect d (t # ts) cur acc = collect d ts (t # cur) acc"
  by (cases t) simp_all

lemma collect_crt_names:
  "collect d (map crt_name ts) (map crt_name cur) (map (map crt_name) acc) =
   map_option (\<lambda>(args, rest). (map (map crt_name) args, map crt_name rest))
     (collect d ts cur acc)"
proof (induction ts arbitrary: d cur acc)
  case Nil
  then show ?case by simp
next
  case (Cons t ts)
  show ?case
  proof (cases t rule: crt_name_cases)
    case paren
    then show ?thesis using Cons [of "Suc d" "LParen # cur" acc] by simp
  next
    case close
    then show ?thesis using Cons [of "d - 1" "RParen # cur" acc] by (simp add: rev_map)
  next
    case comma
    then show ?thesis
      using Cons [of 0 "[]" "rev cur # acc"] Cons [of d "Comma # cur" acc]
      by (simp add: rev_map)
  next
    case word
    then show ?thesis using Cons [of d "t # cur" acc] by (simp add: collect_word)
  qed
qed


lemma expand_plain_step:
  assumes "\<And>rest. expand tbl (t # rest) = followed_by xs (expand tbl rest)"
    and "\<And>rest. expand tbl (t' # rest) = followed_by xs (expand tbl rest)"
    and "expand tbl ts' = expand tbl ts"
  shows "expand tbl (t' # ts') = expand tbl (t # ts)"
  using assms by simp

lemma expand_crt_names:
  assumes "win32 tc"
  shows "expand (macros (windows_portability_h tc)) (map crt_name ts) =
         expand (macros (windows_portability_h tc)) ts"
proof (induction "length ts" arbitrary: ts rule: less_induct)
  case less
  let ?T = "macros (windows_portability_h tc)"
  note mac = windows_macros [OF assms]
  show ?case
  proof (cases ts)
    case Nil
    then show ?thesis by simp
  next
    case (Cons t ts')
    have IH: "expand ?T (map crt_name ts') = expand ?T ts'"
      using less [of ts'] Cons by simp
    show ?thesis
    proof (cases "t = Ident ''getpid'' \<or> t = Ident ''access''")
      case True
      then show ?thesis using Cons IH mac by auto
    next
      case False
      then have same: "crt_name t = t" by (simp add: crt_name_def)
      show ?thesis
      proof (cases "\<exists>n ps body. t = Ident n \<and> map_of ?T n = Some (FunctionLike ps body)")
        case False
        then obtain xs where "\<And>rest. expand ?T (t # rest) = followed_by xs (expand ?T rest)"
          using expand_plain_head by blast
        then show ?thesis using Cons same IH by simp
      next
        case True
        then obtain n ps body where t: "t = Ident n"
          and fl: "map_of ?T n = Some (FunctionLike ps body)" by blast
        show ?thesis
        proof (cases "ts' = [] \<or> hd ts' \<noteq> LParen")
          case True
          then have "map crt_name ts' = [] \<or> hd (map crt_name ts') \<noteq> LParen"
            by (cases ts') (auto simp: crt_name_def)
          then have "expand ?T (Ident n # map crt_name ts') =
                     followed_by [Ident n] (expand ?T (map crt_name ts'))"
            using fl by (rule expand_unapplied_head [rotated])
          moreover have "expand ?T (Ident n # ts') = followed_by [Ident n] (expand ?T ts')"
            using fl True by (rule expand_unapplied_head)
          ultimately show ?thesis using Cons t same IH by simp
        next
          case False
          then obtain ts'' where ts': "ts' = LParen # ts''" by (cases ts') auto
          have col: "collect 0 (map crt_name ts'') [] [] =
                     map_option (\<lambda>(args, rest). (map (map crt_name) args, map crt_name rest))
                       (collect 0 ts'' [] [])"
            using collect_crt_names [of 0 ts'' "[]" "[]"] by simp
          show ?thesis
          proof (cases "collect 0 ts'' [] []")
            case None
            then show ?thesis using Cons t same ts' fl col by simp
          next
            case (Some found)
            obtain args rest where found: "found = (args, rest)" by (cases found)
            have c0: "collect 0 ts'' [] [] = Some (args, rest)" using Some found by simp
            have c1: "collect 0 (map crt_name ts'') [] [] =
                      Some (map (map crt_name) args, map crt_name rest)"
              using col c0 by simp
            have short: "length rest < length ts''"
              and shorta: "\<And>a. a \<in> set args \<Longrightarrow> length a \<le> length ts''"
              using collect_args_shorter [OF c0] by auto
            have IHrest: "expand ?T (map crt_name rest) = expand ?T rest"
              using less [of rest] short Cons ts' by simp
            have IHargs: "\<And>a. a \<in> set args \<Longrightarrow> expand ?T (map crt_name a) = expand ?T a"
              using less shorta Cons ts' by (simp add: le_imp_less_Suc less_SucI)
            have eargs: "map (\<lambda>(p, a). if Ident p \<in> set body then expand ?T a else Inr [])
                           (zip ps (map (map crt_name) args)) =
                         map (\<lambda>(p, a). if Ident p \<in> set body then expand ?T a else Inr [])
                           (zip ps args)"
              using IHargs by (auto simp: zip_map2 case_prod_beta dest: set_zip_rightD)
            have empty_arg: "(map (map crt_name) args = [[]]) = (args = [[]])"
              by (cases args) auto
            show ?thesis
              unfolding Cons t ts' list.map same [unfolded t]
              using fl c0 c1 IHrest eargs empty_arg
              by (simp del: map_map cong: sum.case_cong)
          qed
        qed
      qed
    qed
  qed
qed

section \<open>The macro definitions\<close>






text \<open>
  Claim C5. As stated, for every non-GCC compiler, the claim fails: the definition of
  \<^verbatim>\<open>__attribute__\<close> sits inside the \<^verbatim>\<open>#ifdef _WIN32\<close> block, so a non-GCC compiler
  that does not define \<^verbatim>\<open>_WIN32\<close> gets no such macro and an attribute annotation
  stays in the translation unit.
\<close>

theorem attribute_kept_without_win32:
  "\<not> gnuc unix_cc \<and>
   argument [LParen, Ident ''constructor'', RParen] \<and>
   map_of (macros (windows_portability_h unix_cc)) ''__attribute__'' = None \<and>
   expand (macros (windows_portability_h unix_cc))
     [Ident ''__attribute__'', LParen, LParen, Ident ''constructor'', RParen, RParen,
      Ident ''void'', Ident ''init''] =
   Inr [Ident ''__attribute__'', LParen, LParen, Ident ''constructor'', RParen, RParen,
        Ident ''void'', Ident ''init''] \<and>
   expand (macros (windows_portability_h unix_cc))
     [Ident ''__attribute__'', LParen, LParen, Ident ''constructor'', RParen, RParen,
      Ident ''void'', Ident ''init''] \<noteq>
   expand (macros (windows_portability_h unix_cc)) [Ident ''void'', Ident ''init'']"
  by (simp add: unix_cc_def argument_def windows_portability_h_def)

text \<open>
  Claim C5, amended. Where \<^verbatim>\<open>_WIN32\<close> is defined and \<^verbatim>\<open>__GNUC__\<close> is not,
  \<^verbatim>\<open>__attribute__(x)\<close> is replaced by nothing, for every argument \<open>x\<close> and whatever
  follows; under every other toolchain the header does not define \<^verbatim>\<open>__attribute__\<close>.
\<close>

theorem attribute_neutralized_on_windows:
  "(win32 tc \<and> \<not> gnuc tc \<and> argument x \<longrightarrow>
      expand (macros (windows_portability_h tc))
        (Ident ''__attribute__'' # LParen # x @ RParen # ts) =
      expand (macros (windows_portability_h tc)) ts) \<and>
   (\<not> (win32 tc \<and> \<not> gnuc tc) \<longrightarrow>
      map_of (macros (windows_portability_h tc)) ''__attribute__'' = None)"
proof (intro conjI impI)
  assume "win32 tc \<and> \<not> gnuc tc \<and> argument x"
  then show "expand (macros (windows_portability_h tc))
               (Ident ''__attribute__'' # LParen # x @ RParen # ts) =
             expand (macros (windows_portability_h tc)) ts"
    using expand_attribute [of tc x ts] by blast
next
  assume "\<not> (win32 tc \<and> \<not> gnuc tc)"
  then show "map_of (macros (windows_portability_h tc)) ''__attribute__'' = None"
    by (cases "win32 tc") (auto simp: windows_macros other_macros)
qed

theorem attribute_neutralized_on_windows_witness:
  "expand (macros (windows_portability_h msvc))
     [Ident ''__attribute__'', LParen, LParen, Ident ''constructor'', RParen, RParen,
      Ident ''void'', Ident ''init''] =
   Inr [Ident ''void'', Ident ''init''] \<and>
   map_of (macros (windows_portability_h mingw)) ''__attribute__'' = None"
proof -
  have pre: "win32 msvc \<and> \<not> gnuc msvc \<and> argument [LParen, Ident ''constructor'', RParen]"
    by (simp add: msvc_def argument_def)
  have other: "\<not> (win32 mingw \<and> \<not> gnuc mingw)" by (simp add: mingw_def)
  have e: "expand (macros (windows_portability_h msvc)) [Ident ''void'', Ident ''init''] =
           Inr [Ident ''void'', Ident ''init'']"
    by (simp add: windows_portability_h_def msvc_def)
  have "expand (macros (windows_portability_h msvc))
          (Ident ''__attribute__'' # LParen # [LParen, Ident ''constructor'', RParen] @ RParen #
             [Ident ''void'', Ident ''init'']) =
        expand (macros (windows_portability_h msvc)) [Ident ''void'', Ident ''init'']"
    using attribute_neutralized_on_windows
            [of msvc "[LParen, Ident ''constructor'', RParen]" "[Ident ''void'', Ident ''init'']"]
      pre by blast
  moreover have "map_of (macros (windows_portability_h mingw)) ''__attribute__'' = None"
    using attribute_neutralized_on_windows [of mingw "[]" "[]"] other by blast
  ultimately show ?thesis
    unfolding e by (simp only: append_Cons append_Nil simp_thms)
qed

text \<open>
  Claim C6. As stated the claim fails on the count: under Windows with a non-GCC
  compiler and \<^verbatim>\<open>_OPENMP\<close> defined the header emits three linker directives, not two,
  and without \<^verbatim>\<open>_OPENMP\<close> the two it emits include none for the OpenMP runtime.
\<close>

theorem linker_surface_is_not_two_directives:
  "win32 msvc_openmp \<and> \<not> gnuc msvc_openmp \<and>
   pragmas (common_windows_h msvc_openmp) =
     [CommentLib ''brotlienc.lib'', CommentLib ''brotlidec.lib'', CommentLib ''libiomp5md.lib''] \<and>
   length (pragmas (common_windows_h msvc_openmp)) \<noteq> 2 \<and>
   win32 msvc \<and> \<not> gnuc msvc \<and>
   pragmas (common_windows_h msvc) =
     [CommentLib ''brotlienc.lib'', CommentLib ''brotlidec.lib''] \<and>
   CommentLib ''libiomp5md.lib'' \<notin> set (pragmas (common_windows_h msvc))"
  by (simp add: msvc_openmp_def msvc_def common_windows_h_def)

text \<open>
  Claim C6, amended. Linker directives are emitted only under Windows with a non-GCC
  compiler, and only by \<^verbatim>\<open>common_windows.h\<close>. There they are the two directives for
  the encoder and the decoder library, followed by a third for the OpenMP runtime
  library exactly when \<^verbatim>\<open>_OPENMP\<close> is defined. Under any other toolchain no linker
  pragma is emitted.
\<close>

theorem linker_directives:
  "pragmas (windows_portability_h tc) = [] \<and>
   (pragmas (common_windows_h tc) \<noteq> [] \<longleftrightarrow> win32 tc \<and> \<not> gnuc tc) \<and>
   (win32 tc \<and> \<not> gnuc tc \<longrightarrow>
      pragmas (common_windows_h tc) =
        [CommentLib ''brotlienc.lib'', CommentLib ''brotlidec.lib''] @
        (if openmp tc then [CommentLib ''libiomp5md.lib''] else []))"
  by (simp add: windows_portability_h_def common_windows_h_def)

theorem linker_directives_witness:
  "pragmas (common_windows_h msvc) =
     [CommentLib ''brotlienc.lib'', CommentLib ''brotlidec.lib''] \<and>
   pragmas (common_windows_h mingw) = [] \<and>
   pragmas (common_windows_h unix_cc) = [] \<and>
   pragmas (windows_portability_h msvc) = []"
proof -
  have a: "win32 msvc \<and> \<not> gnuc msvc" and b: "\<not> openmp msvc"
    and c: "\<not> (win32 mingw \<and> \<not> gnuc mingw)" and d: "\<not> (win32 unix_cc \<and> \<not> gnuc unix_cc)"
    by (simp_all add: msvc_def mingw_def unix_cc_def)
  show ?thesis
    using linker_directives [of msvc] linker_directives [of mingw]
      linker_directives [of unix_cc] a b c d
    by auto
qed

end
